theory Spec2Isabelle
  imports Complex_Main "HOL-Library.AList"
begin

section \<open>JSON values as the schema engine sees them\<close>

text \<open>
  The schema handed to the engine is the result of \<^verbatim>\<open>JSON.parse\<close> (\<^verbatim>\<open>loadSchema\<close>), cast to
  \<^verbatim>\<open>SchemaNode\<close> without any check, and \<^verbatim>\<open>resolvePointer\<close> walks it as \<^verbatim>\<open>unknown\<close>. The
  embedding therefore keeps a schema as the JSON tree it is at run time and follows the
  JavaScript reading of every test the source makes on it (truthiness, \<^verbatim>\<open>typeof\<close>,
  \<^verbatim>\<open>Array.isArray\<close>, property reads).

  \<^item> A JavaScript value that may be \<^verbatim>\<open>undefined\<close> is a \<open>json option\<close>; \<open>None\<close> is
    \<^verbatim>\<open>undefined\<close>.
  \<^item> A number is a \<open>jsnumber\<close>: the three non-finite doubles, or a finite value kept as
    a rational (every finite double is one; \<open>Finite 0\<close> stands for both zeros).
  \<^item> A string is the list of its code units.
  \<^item> An object is the list of its own properties; a read takes the first binding of a
    key.
  \<^item> A property read follows the prototype chain. No schema keyword is the name of an
    inherited member, so this shows in the two reads under a computed name,
    \<^verbatim>\<open>schema.properties[key]\<close> and \<^verbatim>\<open>record[part]\<close> (with \<^verbatim>\<open>part in record\<close>): under a name
    such as \<^verbatim>\<open>toString\<close> or \<^verbatim>\<open>__proto__\<close> they find a member of the standard library. Such
    a member is a \<open>builtin\<close>: one of the prototype objects, or the function that a
    prototype object stores under a name.
\<close>

datatype jsnumber = NaN | PosInfinity | NegInfinity | Finite rat

datatype proto =
  ObjectPrototype | ArrayPrototype | StringPrototype | NumberPrototype | BooleanPrototype

datatype builtin = Prototype proto | BuiltinFunction proto string

datatype json =
    JNull
  | JBool bool
  | JNum jsnumber
  | JStr string
  | JArr "json list"
  | JObj "(string \<times> json) list"
  | JBuiltin builtin

text \<open>What the source can throw, and the one outcome the embedding does not follow:
  \<open>Unmodelled\<close> marks a schema whose handling depends on JavaScript's coercion of a
  string or an array to a number, of a value that is not a string to a string, or on the
  identity of an object stored in a \<^verbatim>\<open>required\<close> array. It arises only from values that
  the type \<^verbatim>\<open>SchemaNode\<close> excludes: a composition keyword that is an object whose \<^verbatim>\<open>length\<close>
  is a string or an array, an entry of \<^verbatim>\<open>type\<close> or \<^verbatim>\<open>required\<close> that is not a string where its
  text is needed, and an entry of \<^verbatim>\<open>required\<close> that is an object or an array. A result is
  \<open>None\<close> when the recursion did not return within the fuel, \<open>Some (Inl e)\<close> when the source
  throws, \<open>Some (Inr v)\<close> when it returns \<open>v\<close>.\<close>

datatype error = TypeError | Unmodelled

type_synonym 'a result = "(error + 'a) option"

fun truthy :: "json \<Rightarrow> bool" where
  "truthy JNull = False"
| "truthy (JBool b) = b"
| "truthy (JNum n) = (n \<noteq> NaN \<and> n \<noteq> Finite 0)"
| "truthy (JStr s) = (s \<noteq> [])"
| "truthy (JArr xs) = True"
| "truthy (JObj kvs) = True"
| "truthy (JBuiltin b) = True"

definition truthy_opt :: "json option \<Rightarrow> bool" where
  "truthy_opt v = (case v of None \<Rightarrow> False | Some j \<Rightarrow> truthy j)"

text \<open>\<^verbatim>\<open>typeof v === 'object'\<close>: objects, arrays, \<^verbatim>\<open>null\<close> and the prototype objects; a
  function has the type \<^verbatim>\<open>function\<close>.\<close>

fun typeofObject :: "json \<Rightarrow> bool" where
  "typeofObject JNull = True"
| "typeofObject (JArr xs) = True"
| "typeofObject (JObj kvs) = True"
| "typeofObject (JBuiltin (Prototype p)) = True"
| "typeofObject v = False"

subsection \<open>Property reads\<close>

definition is_digit :: "char \<Rightarrow> bool" where
  "is_digit c = (c \<in> set ''0123456789'')"

definition digit_val :: "char \<Rightarrow> nat" where
  "digit_val c = of_char c - 48"

text \<open>A property name is an array index when it is the canonical decimal numeral of
  the index: no sign, no leading zero.\<close>

definition index_of_key :: "string \<Rightarrow> nat option" where
  "index_of_key s =
     (if s \<noteq> [] \<and> list_all is_digit s \<and> (s = ''0'' \<or> hd s \<noteq> CHR ''0'')
      then Some (foldl (\<lambda>n c. 10 * n + digit_val c) 0 s) else None)"

subsubsection \<open>Inherited members\<close>

text \<open>The names under which each prototype object stores a function (ECMAScript 2023
  with its Annex B, the library of the engine that hosts the extension). Beside them
  \<^verbatim>\<open>Array.prototype\<close> and \<^verbatim>\<open>String.prototype\<close> have a \<^verbatim>\<open>length\<close> of zero, and
  \<^verbatim>\<open>Object.prototype\<close> has the accessor \<^verbatim>\<open>__proto__\<close>.\<close>

fun functionNames :: "proto \<Rightarrow> string list" where
  "functionNames ObjectPrototype =
     [''constructor'', ''__defineGetter__'', ''__defineSetter__'', ''hasOwnProperty'',
      ''__lookupGetter__'', ''__lookupSetter__'', ''isPrototypeOf'', ''propertyIsEnumerable'',
      ''toString'', ''valueOf'', ''toLocaleString'']"
| "functionNames ArrayPrototype =
     [''constructor'', ''at'', ''concat'', ''copyWithin'', ''fill'', ''find'', ''findIndex'',
      ''findLast'', ''findLastIndex'', ''lastIndexOf'', ''pop'', ''push'', ''reverse'', ''shift'',
      ''unshift'', ''slice'', ''sort'', ''splice'', ''includes'', ''indexOf'', ''join'', ''keys'',
      ''entries'', ''values'', ''forEach'', ''filter'', ''flat'', ''flatMap'', ''map'', ''every'',
      ''some'', ''reduce'', ''reduceRight'', ''toLocaleString'', ''toString'', ''toReversed'',
      ''toSorted'', ''toSpliced'', ''with'']"
| "functionNames StringPrototype =
     [''constructor'', ''anchor'', ''at'', ''big'', ''blink'', ''bold'', ''charAt'', ''charCodeAt'',
      ''codePointAt'', ''concat'', ''endsWith'', ''fontcolor'', ''fontsize'', ''fixed'',
      ''includes'', ''indexOf'', ''italics'', ''lastIndexOf'', ''link'', ''localeCompare'',
      ''match'', ''matchAll'', ''normalize'', ''padEnd'', ''padStart'', ''repeat'', ''replace'',
      ''replaceAll'', ''search'', ''slice'', ''small'', ''split'', ''strike'', ''sub'', ''substr'',
      ''substring'', ''sup'', ''startsWith'', ''toString'', ''trim'', ''trimStart'', ''trimLeft'',
      ''trimEnd'', ''trimRight'', ''toLocaleLowerCase'', ''toLocaleUpperCase'', ''toLowerCase'',
      ''toUpperCase'', ''valueOf'']"
| "functionNames NumberPrototype =
     [''constructor'', ''toExponential'', ''toFixed'', ''toPrecision'', ''toString'', ''valueOf'',
      ''toLocaleString'']"
| "functionNames BooleanPrototype = [''constructor'', ''toString'', ''valueOf'']"

text \<open>Two names of \<^verbatim>\<open>String.prototype\<close> hold the function of another name.\<close>

definition functionUnder :: "proto \<Rightarrow> string \<Rightarrow> builtin" where
  "functionUnder p k =
     (if p = StringPrototype \<and> k = ''trimLeft'' then BuiltinFunction p ''trimStart''
      else if p = StringPrototype \<and> k = ''trimRight'' then BuiltinFunction p ''trimEnd''
      else BuiltinFunction p k)"

text \<open>The own member of a prototype object under a name other than \<^verbatim>\<open>__proto__\<close>.\<close>

definition ownMember :: "proto \<Rightarrow> string \<Rightarrow> json option" where
  "ownMember p k =
     (if k = ''length'' \<and> (p = ArrayPrototype \<or> p = StringPrototype) then Some (JNum (Finite 0))
      else if k \<in> set (functionNames p) then Some (JBuiltin (functionUnder p k))
      else None)"

text \<open>Every prototype object other than \<^verbatim>\<open>Object.prototype\<close> has \<^verbatim>\<open>Object.prototype\<close> as
  its prototype, and \<^verbatim>\<open>Object.prototype\<close> has none.\<close>

fun lookupMember :: "proto \<Rightarrow> string \<Rightarrow> json option" where
  "lookupMember ObjectPrototype k = ownMember ObjectPrototype k"
| "lookupMember p k =
     (case ownMember p k of
        Some v \<Rightarrow> Some v
      | None \<Rightarrow> ownMember ObjectPrototype k)"

fun prototypeOf :: "proto \<Rightarrow> json" where
  "prototypeOf ObjectPrototype = JNull"
| "prototypeOf p = JBuiltin (Prototype ObjectPrototype)"

text \<open>The read of \<open>k\<close> on a value that has the prototype \<open>p\<close> and no own property \<open>k\<close>. The
  accessor \<^verbatim>\<open>__proto__\<close> answers with the prototype of the value it is read on.\<close>

definition inherited :: "proto \<Rightarrow> string \<Rightarrow> json option" where
  "inherited p k = (if k = ''__proto__'' then Some (JBuiltin (Prototype p)) else lookupMember p k)"

text \<open>\<^verbatim>\<open>v[k]\<close> for a value \<open>v\<close> that is not \<^verbatim>\<open>null\<close>: an own property of an object, an
  element or the \<^verbatim>\<open>length\<close> of an array or of a string, otherwise the member that the
  value inherits under \<open>k\<close>, \<^verbatim>\<open>undefined\<close> when there is none. For an object or an array,
  \<^verbatim>\<open>k in v\<close> holds exactly when the read is not \<open>None\<close>, since neither a value made by
  \<^verbatim>\<open>JSON.parse\<close> nor a prototype object stores \<^verbatim>\<open>undefined\<close>. A function is opaque: the
  engine reads on a schema only the nine schema keywords, which no function has, and
  \<^verbatim>\<open>resolvePointer\<close> does not read a value whose \<^verbatim>\<open>typeof\<close> is \<^verbatim>\<open>function\<close>.\<close>

fun getProp :: "json \<Rightarrow> string \<Rightarrow> json option" where
  "getProp (JObj kvs) k =
     (case map_of kvs k of
        Some v \<Rightarrow> Some v
      | None \<Rightarrow> inherited ObjectPrototype k)"
| "getProp (JArr xs) k =
     (if k = ''length'' then Some (JNum (Finite (of_nat (length xs))))
      else (case index_of_key k of
              None \<Rightarrow> inherited ArrayPrototype k
            | Some i \<Rightarrow> if i < length xs then Some (xs ! i) else inherited ArrayPrototype k))"
| "getProp (JStr s) k =
     (if k = ''length'' then Some (JNum (Finite (of_nat (length s))))
      else (case index_of_key k of
              None \<Rightarrow> inherited StringPrototype k
            | Some i \<Rightarrow> if i < length s then Some (JStr [s ! i]) else inherited StringPrototype k))"
| "getProp (JNum n) k = inherited NumberPrototype k"
| "getProp (JBool b) k = inherited BooleanPrototype k"
| "getProp (JBuiltin (Prototype p)) k =
     (if k = ''__proto__'' then Some (prototypeOf p) else lookupMember p k)"
| "getProp v k = None"

text \<open>\<^verbatim>\<open>x && x.length > 0\<close>, the test in front of each composition keyword. The
  comparison coerces \<^verbatim>\<open>x.length\<close> to a number. An object is coerced through its
  \<^verbatim>\<open>valueOf\<close> and \<^verbatim>\<open>toString\<close>: the inherited ones give \<^verbatim>\<open>NaN\<close>, while an own \<^verbatim>\<open>toString\<close>
  (never a function in a parsed value) leaves no way to a primitive and the comparison
  throws. The coercion of a string or an array (possible only when \<open>x\<close> is an object with
  a key \<^verbatim>\<open>length\<close>) is not modelled. A builtin is coerced to \<^verbatim>\<open>NaN\<close> or to zero.\<close>

fun positiveNumber :: "jsnumber \<Rightarrow> bool" where
  "positiveNumber (Finite q) = (0 < q)"
| "positiveNumber PosInfinity = True"
| "positiveNumber n = False"

fun greaterThanZero :: "json \<Rightarrow> error + bool" where
  "greaterThanZero (JNum n) = Inr (positiveNumber n)"
| "greaterThanZero (JBool b) = Inr b"
| "greaterThanZero JNull = Inr False"
| "greaterThanZero (JObj kvs) = (if map_of kvs ''toString'' = None then Inr False else Inl TypeError)"
| "greaterThanZero (JStr s) = Inl Unmodelled"
| "greaterThanZero (JArr xs) = Inl Unmodelled"
| "greaterThanZero (JBuiltin b) = Inr False"

definition hasEntries :: "json option \<Rightarrow> error + bool" where
  "hasEntries x =
     (case x of
        None \<Rightarrow> Inr False
      | Some v \<Rightarrow>
          if \<not> truthy v then Inr False
          else (case getProp v ''length'' of
                  None \<Rightarrow> Inr False
                | Some n \<Rightarrow> greaterThanZero n))"

section \<open>Schema Resolver\<close>

subsection \<open>resolvePointer\<close>

definition startsWith :: "string \<Rightarrow> string \<Rightarrow> bool" where
  "startsWith s p = (take (length p) s = p)"

text \<open>\<^verbatim>\<open>s.split('/')\<close>: the empty string splits into one empty part.\<close>

fun split_slash :: "string \<Rightarrow> string list" where
  "split_slash [] = [[]]"
| "split_slash (c # cs) =
     (if c = CHR ''/'' then [] # split_slash cs
      else (case split_slash cs of
              [] \<Rightarrow> [[c]]
            | p # ps \<Rightarrow> (c # p) # ps))"

text \<open>\<^verbatim>\<open>part.replace(/~1/g, '/')\<close> and \<^verbatim>\<open>part.replace(/~0/g, '~')\<close>: matches are taken
  left to right and do not overlap.\<close>

fun replace_tilde1 :: "string \<Rightarrow> string" where
  "replace_tilde1 (a # b # cs) =
     (if a = CHR ''~'' \<and> b = CHR ''1'' then CHR ''/'' # replace_tilde1 cs
      else a # replace_tilde1 (b # cs))"
| "replace_tilde1 cs = cs"

fun replace_tilde0 :: "string \<Rightarrow> string" where
  "replace_tilde0 (a # b # cs) =
     (if a = CHR ''~'' \<and> b = CHR ''0'' then CHR ''~'' # replace_tilde0 cs
      else a # replace_tilde0 (b # cs))"
| "replace_tilde0 cs = cs"

definition pointerParts :: "string \<Rightarrow> string list" where
  "pointerParts ref = map (\<lambda>part. replace_tilde0 (replace_tilde1 part)) (split_slash (drop 2 ref))"

text \<open>The loop of \<^verbatim>\<open>resolvePointer\<close> over the parts.\<close>

fun walkPointer :: "json \<Rightarrow> string list \<Rightarrow> json option" where
  "walkPointer current [] = Some current"
| "walkPointer current (part # parts) =
     (if \<not> truthy current \<or> \<not> typeofObject current then None
      else (case getProp current part of
              None \<Rightarrow> None
            | Some v \<Rightarrow> walkPointer v parts))"

definition resolvePointer :: "json \<Rightarrow> string \<Rightarrow> json option" where
  "resolvePointer rootSchema ref =
     (if \<not> startsWith ref ''#/'' then None
      else walkPointer rootSchema (pointerParts ref))"

subsection \<open>mergeSchemas\<close>

text \<open>The own enumerable properties that \<^verbatim>\<open>{...v}\<close> copies: those of an object, the
  elements of an array and the code units of a string under their indices, nothing for
  any other value.\<close>

fun digits :: "nat \<Rightarrow> string" where
  "digits n =
     (if n < 10 then [char_of (48 + n)]
      else digits (n div 10) @ [char_of (48 + n mod 10)])"

definition indexed :: "json list \<Rightarrow> (string \<times> json) list" where
  "indexed xs = map (\<lambda>i. (digits i, xs ! i)) [0..<length xs]"

fun spread :: "json option \<Rightarrow> (string \<times> json) list" where
  "spread (Some (JObj kvs)) = kvs"
| "spread (Some (JArr xs)) = indexed xs"
| "spread (Some (JStr s)) = indexed (map (\<lambda>c. JStr [c]) s)"
| "spread v = []"

text \<open>The values that \<^verbatim>\<open>[...v]\<close> iterates, for a truthy \<open>v\<close>: the elements of an array,
  the characters of a string (\<^verbatim>\<open>Array.prototype\<close> and \<^verbatim>\<open>String.prototype\<close> are an empty
  array and an empty string); any other value is not iterable.\<close>

fun iterate :: "json \<Rightarrow> error + json list" where
  "iterate (JArr xs) = Inr xs"
| "iterate (JStr s) = Inr (map (\<lambda>c. JStr [c]) s)"
| "iterate (JBuiltin (Prototype ArrayPrototype)) = Inr []"
| "iterate (JBuiltin (Prototype StringPrototype)) = Inr []"
| "iterate v = Inl TypeError"

fun isPrimitive :: "json \<Rightarrow> bool" where
  "isPrimitive (JArr xs) = False"
| "isPrimitive (JObj kvs) = False"
| "isPrimitive (JBuiltin b) = False"
| "isPrimitive v = True"

text \<open>\<^verbatim>\<open>Array.from(new Set(xs))\<close>: the first occurrence of each value, in order. Objects
  and arrays are compared by identity there, which the tree does not record.\<close>

definition setAdd :: "'a list \<Rightarrow> 'a \<Rightarrow> 'a list" where
  "setAdd acc x = (if x \<in> set acc then acc else acc @ [x])"

definition arrayFromSet :: "json list \<Rightarrow> error + json list" where
  "arrayFromSet xs = (if list_all isPrimitive xs then Inr (foldl setAdd [] xs) else Inl Unmodelled)"

text \<open>\<^verbatim>\<open>merged.required ?? []\<close>, where \<^verbatim>\<open>merged.required\<close> is unset or an array that an
  earlier round stored.\<close>

definition arrayOrEmpty :: "json option \<Rightarrow> json list" where
  "arrayOrEmpty v = (case v of Some (JArr xs) \<Rightarrow> xs | _ \<Rightarrow> [])"

text \<open>One round of the loop of \<^verbatim>\<open>mergeSchemas\<close>, one definition for each of its five
  statements; \<open>merged\<close> is the property list of the object under construction. In the
  merged \<^verbatim>\<open>properties\<close> the later branch's entries stand in front, so that a read finds
  them first.\<close>

definition mergeType :: "(string \<times> json) list \<Rightarrow> json \<Rightarrow> (string \<times> json) list" where
  "mergeType merged schema =
     (if truthy_opt (getProp schema ''type'')
      then AList.update ''type'' (the (getProp schema ''type'')) merged
      else merged)"

definition mergeProperties :: "(string \<times> json) list \<Rightarrow> json \<Rightarrow> (string \<times> json) list" where
  "mergeProperties merged schema =
     (if truthy_opt (getProp schema ''properties'')
      then AList.update ''properties''
             (JObj (spread (getProp schema ''properties'') @ spread (map_of merged ''properties''))) merged
      else merged)"

definition mergeRequired :: "(string \<times> json) list \<Rightarrow> json \<Rightarrow> error + (string \<times> json) list" where
  "mergeRequired merged schema =
     (if truthy_opt (getProp schema ''required'')
      then (case iterate (the (getProp schema ''required'')) of
              Inl e \<Rightarrow> Inl e
            | Inr ys \<Rightarrow>
                (case arrayFromSet (arrayOrEmpty (map_of merged ''required'') @ ys) of
                   Inl e \<Rightarrow> Inl e
                 | Inr rs \<Rightarrow> Inr (AList.update ''required'' (JArr rs) merged)))
      else Inr merged)"

definition mergeItems :: "(string \<times> json) list \<Rightarrow> json \<Rightarrow> (string \<times> json) list" where
  "mergeItems merged schema =
     (if truthy_opt (getProp schema ''items'')
      then AList.update ''items'' (the (getProp schema ''items'')) merged
      else merged)"

definition mergeAdditionalProperties :: "(string \<times> json) list \<Rightarrow> json \<Rightarrow> (string \<times> json) list" where
  "mergeAdditionalProperties merged schema =
     (case getProp schema ''additionalProperties'' of
        None \<Rightarrow> merged
      | Some ap \<Rightarrow> AList.update ''additionalProperties'' ap merged)"

definition mergeStep :: "(string \<times> json) list \<Rightarrow> json \<Rightarrow> error + (string \<times> json) list" where
  "mergeStep merged schema =
     (if \<not> truthy schema then Inr merged
      else
        (case mergeRequired (mergeProperties (mergeType merged schema) schema) schema of
           Inl e \<Rightarrow> Inl e
         | Inr merged' \<Rightarrow> Inr (mergeAdditionalProperties (mergeItems merged' schema) schema)))"

fun mergeLoop :: "(string \<times> json) list \<Rightarrow> json list \<Rightarrow> error + (string \<times> json) list" where
  "mergeLoop merged [] = Inr merged"
| "mergeLoop merged (schema # schemas) =
     (case mergeStep merged schema of
        Inl e \<Rightarrow> Inl e
      | Inr merged' \<Rightarrow> mergeLoop merged' schemas)"

definition mergeSchemas :: "json list \<Rightarrow> error + json option" where
  "mergeSchemas schemas =
     (if schemas = [] then Inr None
      else (case mergeLoop [] schemas of
              Inl e \<Rightarrow> Inl e
            | Inr merged \<Rightarrow> Inr (Some (JObj merged))))"

subsection \<open>resolveSchemaNode\<close>

text \<open>The visited set. The root schema is a tree (\<^verbatim>\<open>JSON.parse\<close> shares no object), so
  two pointer walks end at the same object exactly when they follow the same parts;
  \<open>seen\<close> holds the part lists of the targets visited so far. A target that is a primitive
  value or a builtin carries no schema keyword, so it is returned as it is on either side
  of the \<^verbatim>\<open>seen.has\<close> test.\<close>

text \<open>\<^verbatim>\<open>xs.map(f)\<close> where a call of \<open>f\<close> may throw or not return: the first such call, in
  order, decides.\<close>

fun collect :: "'a result list \<Rightarrow> 'a list result" where
  "collect [] = Some (Inr [])"
| "collect (r # rs) =
     (case r of
        None \<Rightarrow> None
      | Some (Inl e) \<Rightarrow> Some (Inl e)
      | Some (Inr v) \<Rightarrow>
          (case collect rs of
             None \<Rightarrow> None
           | Some (Inl e) \<Rightarrow> Some (Inl e)
           | Some (Inr vs) \<Rightarrow> Some (Inr (v # vs))))"

text \<open>\<^verbatim>\<open>.filter(Boolean)\<close> over resolved branches.\<close>

definition filterBoolean :: "json option list \<Rightarrow> json list" where
  "filterBoolean vs = map the (filter truthy_opt vs)"

text \<open>\<^verbatim>\<open>schema.$ref && typeof schema.$ref === 'string'\<close>: the reference, when the test
  holds.\<close>

definition refOf :: "json \<Rightarrow> string option" where
  "refOf schema =
     (case getProp schema ''$ref'' of
        Some (JStr r) \<Rightarrow> if r \<noteq> [] then Some r else None
      | _ \<Rightarrow> None)"

fun resolveSchemaNode :: "nat \<Rightarrow> json option \<Rightarrow> json \<Rightarrow> string list list \<Rightarrow> json option result" where
  "resolveSchemaNode 0 schema rootSchema seen = None"
| "resolveSchemaNode (Suc fuel) schema rootSchema seen =
     (case schema of
        None \<Rightarrow> Some (Inr None)
      | Some s \<Rightarrow>
          if \<not> truthy s then Some (Inr None)
          else
            (case refOf s of
               Some r \<Rightarrow>
                 if \<not> startsWith r ''#'' then Some (Inr None)
                 else
                   (case resolvePointer rootSchema r of
                      None \<Rightarrow> Some (Inr None)
                    | Some resolved \<Rightarrow>
                        if \<not> truthy resolved \<or> pointerParts r \<in> set seen
                        then Some (Inr (Some resolved))
                        else resolveSchemaNode fuel (Some resolved) rootSchema (pointerParts r # seen))
             | None \<Rightarrow>
                 (case hasEntries (getProp s ''allOf'') of
                    Inl e \<Rightarrow> Some (Inl e)
                  | Inr True \<Rightarrow>
                      (case getProp s ''allOf'' of
                         Some (JArr entries) \<Rightarrow>
                           (case collect (map (\<lambda>entry. resolveSchemaNode fuel (Some entry) rootSchema [])
                                              entries) of
                              None \<Rightarrow> None
                            | Some (Inl e) \<Rightarrow> Some (Inl e)
                            | Some (Inr branches) \<Rightarrow> Some (mergeSchemas (filterBoolean branches)))
                       | _ \<Rightarrow> Some (Inl TypeError))
                  | Inr False \<Rightarrow>
                      (case hasEntries (getProp s ''oneOf'') of
                         Inl e \<Rightarrow> Some (Inl e)
                       | Inr True \<Rightarrow>
                           resolveSchemaNode fuel (getProp (the (getProp s ''oneOf'')) ''0'') rootSchema seen
                       | Inr False \<Rightarrow>
                           (case hasEntries (getProp s ''anyOf'') of
                              Inl e \<Rightarrow> Some (Inl e)
                            | Inr True \<Rightarrow>
                                resolveSchemaNode fuel (getProp (the (getProp s ''anyOf'')) ''0'') rootSchema seen
                            | Inr False \<Rightarrow> Some (Inr (Some s)))))))"

section \<open>Tree Matcher\<close>

subsection \<open>Document nodes, configuration and diagnostics\<close>

text \<open>A node of the parse tree of \<^verbatim>\<open>jsonc-parser\<close>: its \<^verbatim>\<open>type\<close>, its decoded \<^verbatim>\<open>value\<close>
  (absent on objects, arrays and properties), \<^verbatim>\<open>offset\<close>, \<^verbatim>\<open>length\<close> and \<^verbatim>\<open>children\<close>.\<close>

datatype node_type =
  ObjectType | ArrayType | PropertyType | StringType | NumberType | BooleanType | NullType

datatype node =
  Node (ntype: node_type) (nvalue: "json option") (noffset: nat) (nlength: nat)
       (nchildren: "node list option")

record schemaMapping =
  pattern :: string
  schemaPath :: string

record extensionConfig =
  schemaMappings :: "schemaMapping list"
  showUnknownProperties :: bool
  enableDiagnostics :: bool

text \<open>The editor's side of a diagnostic. A document is used only through
  \<^verbatim>\<open>positionAt\<close>, which turns an offset into a line and a character.\<close>

type_synonym position = "nat \<times> nat"

record document =
  positionAt :: "nat \<Rightarrow> position"

datatype srange = SRange (rangeStart: position) (rangeEnd: position)

datatype diagnosticSeverity = Error | Warning | Information | Hint

record diagnostic =
  drange :: srange
  message :: string
  severity :: diagnosticSeverity

definition toRange :: "document \<Rightarrow> nat \<Rightarrow> nat \<Rightarrow> srange" where
  "toRange doc start end' = SRange (positionAt doc start) (positionAt doc end')"

definition dquote :: string where
  "dquote = [CHR 0x22]"

subsection \<open>Schema queries\<close>

record propertySchemaInfo =
  infoSchema :: "json option"
  isKnown :: bool

definition getPropertySchemaInfo :: "json \<Rightarrow> string \<Rightarrow> propertySchemaInfo" where
  "getPropertySchemaInfo schema key =
     (if truthy_opt (getProp schema ''properties'') \<and>
         truthy_opt (getProp (the (getProp schema ''properties'')) key)
      then \<lparr>infoSchema = getProp (the (getProp schema ''properties'')) key, isKnown = True\<rparr>
      else if getProp schema ''additionalProperties'' = Some (JBool True) \<or>
              getProp schema ''additionalProperties'' = None
      then \<lparr>infoSchema = None, isKnown = False\<rparr>
      else if truthy_opt (getProp schema ''additionalProperties'') \<and>
              typeofObject (the (getProp schema ''additionalProperties''))
      then \<lparr>infoSchema = getProp schema ''additionalProperties'', isKnown = True\<rparr>
      else \<lparr>infoSchema = None, isKnown = False\<rparr>)"

text \<open>\<^verbatim>\<open>items[index] ?? items[items.length - 1]\<close>: the entry at the index unless it is
  missing or \<^verbatim>\<open>null\<close>, then the last entry (\<^verbatim>\<open>undefined\<close> for an empty array). The
  argument is the \<^verbatim>\<open>items\<close> of a resolved schema, an own property of a parsed or merged
  object and therefore a value of the parsed schema, for which \<^verbatim>\<open>Array.isArray\<close> holds of
  the arrays alone.\<close>

definition resolveArrayItemSchema :: "json option \<Rightarrow> nat \<Rightarrow> json option" where
  "resolveArrayItemSchema items index =
     (case items of
        None \<Rightarrow> None
      | Some v \<Rightarrow>
          if \<not> truthy v then None
          else
            (case v of
               JArr xs \<Rightarrow>
                 if index < length xs \<and> xs ! index \<noteq> JNull then Some (xs ! index)
                 else if xs = [] then None
                 else Some (xs ! (length xs - 1))
             | _ \<Rightarrow> Some v))"

definition toTypeArray :: "json option \<Rightarrow> json list" where
  "toTypeArray t =
     (case t of
        None \<Rightarrow> []
      | Some v \<Rightarrow>
          if \<not> truthy v then []
          else (case v of JArr xs \<Rightarrow> xs | _ \<Rightarrow> [v]))"

text \<open>\<^verbatim>\<open>types.includes(name)\<close> compares with \<^verbatim>\<open>===\<close>: only the string itself is found.\<close>

definition arrayIncludes :: "json list \<Rightarrow> string \<Rightarrow> bool" where
  "arrayIncludes types name = (JStr name \<in> set types)"

definition isObjectSchema :: "json \<Rightarrow> bool" where
  "isObjectSchema schema =
     (arrayIncludes (toTypeArray (getProp schema ''type'')) ''object'' \<or>
      truthy_opt (getProp schema ''properties''))"

definition isArraySchema :: "json \<Rightarrow> bool" where
  "isArraySchema schema =
     (arrayIncludes (toTypeArray (getProp schema ''type'')) ''array'' \<or>
      truthy_opt (getProp schema ''items''))"

definition getSchemaTypeCandidates :: "json \<Rightarrow> json list" where
  "getSchemaTypeCandidates schema =
     (let types = toTypeArray (getProp schema ''type'') in
      if types = [] then
        (if truthy_opt (getProp schema ''properties'') \<or> truthy_opt (getProp schema ''required'')
         then [JStr ''object'']
         else if truthy_opt (getProp schema ''items'') then [JStr ''array'']
         else types)
      else types)"

text \<open>\<^verbatim>\<open>Number.isInteger\<close>: a finite number without a fractional part.\<close>

fun isInteger :: "jsnumber \<Rightarrow> bool" where
  "isInteger (Finite q) = (of_int \<lfloor>q\<rfloor> = q)"
| "isInteger n = False"

definition isNodeTypeCompatible :: "node \<Rightarrow> json \<Rightarrow> bool" where
  "isNodeTypeCompatible node schema =
     (let expected = getSchemaTypeCandidates schema in
      if expected = [] then True
      else
        (case ntype node of
           StringType \<Rightarrow> arrayIncludes expected ''string''
         | NumberType \<Rightarrow>
             if arrayIncludes expected ''number'' then True
             else if arrayIncludes expected ''integer''
             then (case nvalue node of Some (JNum n) \<Rightarrow> isInteger n | _ \<Rightarrow> False)
             else False
         | BooleanType \<Rightarrow> arrayIncludes expected ''boolean''
         | NullType \<Rightarrow> arrayIncludes expected ''null''
         | ObjectType \<Rightarrow> arrayIncludes expected ''object''
         | ArrayType \<Rightarrow> arrayIncludes expected ''array''
         | PropertyType \<Rightarrow> True))"

subsection \<open>Diagnostic construction\<close>

definition createUnknownPropertyDiagnostic :: "node \<Rightarrow> string \<Rightarrow> document \<Rightarrow> diagnostic" where
  "createUnknownPropertyDiagnostic keyNode key doc =
     \<lparr>drange = toRange doc (noffset keyNode) (noffset keyNode + nlength keyNode),
      message = ''Unknown property '' @ dquote @ key @ dquote @ '' (not in schema).'',
      severity = Warning\<rparr>"

definition createMissingRequiredDiagnostic :: "node \<Rightarrow> string \<Rightarrow> document \<Rightarrow> diagnostic" where
  "createMissingRequiredDiagnostic objectNode key doc =
     (let start = noffset objectNode in
      \<lparr>drange = toRange doc start (start + 1),
       message = ''Missing required property '' @ dquote @ key @ dquote @ ''.'',
       severity = Warning\<rparr>)"

text \<open>\<^verbatim>\<open>expected.join(' | ')\<close>. An entry that is not a string would be coerced to one; that
  coercion is not modelled.\<close>

fun stringsOf :: "json list \<Rightarrow> error + string list" where
  "stringsOf [] = Inr []"
| "stringsOf (JStr s # xs) = (case stringsOf xs of Inl e \<Rightarrow> Inl e | Inr ss \<Rightarrow> Inr (s # ss))"
| "stringsOf (v # xs) = Inl Unmodelled"

fun join :: "string list \<Rightarrow> string \<Rightarrow> string" where
  "join [] sep = []"
| "join [s] sep = s"
| "join (s # t # ss) sep = s @ sep @ join (t # ss) sep"

definition createTypeMismatchDiagnostic :: "node \<Rightarrow> json \<Rightarrow> document \<Rightarrow> error + diagnostic" where
  "createTypeMismatchDiagnostic node schema doc =
     (let expected = getSchemaTypeCandidates schema in
      case (if expected \<noteq> [] then map_sum id (\<lambda>ss. join ss '' | '') (stringsOf expected)
            else Inr ''unknown'') of
        Inl e \<Rightarrow> Inl e
      | Inr expectedLabel \<Rightarrow>
          Inr \<lparr>drange = toRange doc (noffset node) (noffset node + nlength node),
               message = ''Type mismatch: expected '' @ expectedLabel @ ''.'',
               severity = Warning\<rparr>)"

subsection \<open>visitNodeForDiagnostics\<close>

text \<open>\<^verbatim>\<open>new Set((resolvedSchema.required ?? []).map(item => String(item)))\<close>, in
  insertion order. Only an array has \<^verbatim>\<open>map\<close>; an entry that is not a string would be
  coerced, which is not modelled.\<close>

definition requiredSetOf :: "json \<Rightarrow> error + string list" where
  "requiredSetOf schema =
     (case getProp schema ''required'' of
        None \<Rightarrow> Inr []
      | Some JNull \<Rightarrow> Inr []
      | Some (JArr xs) \<Rightarrow> map_sum id (foldl setAdd []) (stringsOf xs)
      | Some v \<Rightarrow> Inl TypeError)"

text \<open>The second loop of the object case, over the required set.\<close>

definition missingRequired :: "node \<Rightarrow> string list \<Rightarrow> string list \<Rightarrow> document \<Rightarrow> diagnostic list" where
  "missingRequired node requiredSet presentKeys doc =
     map (\<lambda>requiredKey. createMissingRequiredDiagnostic node requiredKey doc)
       (filter (\<lambda>requiredKey. requiredKey \<noteq> ''$schema'' \<and> requiredKey \<notin> set presentKeys) requiredSet)"

text \<open>The key of a property node: \<^verbatim>\<open>typeof keyNode.value === 'string' ? keyNode.value : undefined\<close>.\<close>

definition keyOf :: "node \<Rightarrow> string option" where
  "keyOf keyNode = (case nvalue keyNode of Some (JStr s) \<Rightarrow> Some s | _ \<Rightarrow> None)"

text \<open>Sequencing of results: a call that throws or does not return ends the whole
  computation, as an exception or an endless recursion does.\<close>

definition ret :: "'a \<Rightarrow> 'a result" where
  "ret x = Some (Inr x)"

definition lift :: "error + 'a \<Rightarrow> 'a result" where
  "lift r = Some r"

definition bindR :: "'a result \<Rightarrow> ('a \<Rightarrow> 'b result) \<Rightarrow> 'b result" where
  "bindR m f = (case m of None \<Rightarrow> None | Some (Inl e) \<Rightarrow> Some (Inl e) | Some (Inr v) \<Rightarrow> f v)"

text \<open>\<^verbatim>\<open>node.children ?? []\<close>.\<close>

definition childrenOrEmpty :: "node list option \<Rightarrow> node list" where
  "childrenOrEmpty children = (case children of None \<Rightarrow> [] | Some cs \<Rightarrow> cs)"

text \<open>The key node and the value node of a child of an object, unless the child is
  skipped: \<^verbatim>\<open>propertyNode.type !== 'property' || !propertyNode.children ||
  propertyNode.children.length < 2\<close>.\<close>

definition propertyPair :: "node \<Rightarrow> (node \<times> node) option" where
  "propertyPair propertyNode =
     (if ntype propertyNode \<noteq> PropertyType then None
      else (case nchildren propertyNode of
              Some (keyNode # valueNode # others) \<Rightarrow> Some (keyNode, valueNode)
            | _ \<Rightarrow> None))"

lemma propertyPair_size: "propertyPair p = Some (k, v) \<Longrightarrow> size v < size p"
  by (cases p) (auto simp: propertyPair_def split: if_splits option.splits list.splits)

text \<open>The matcher appends to a list owned by its caller; here each function returns
  what it appends. \<open>visitProperties\<close> is the first loop of the object case and returns
  the present keys with the diagnostics; \<open>visitElements\<close> is the loop of the array case.
  The recursion follows the document tree; the fuel is only handed to the resolver.\<close>

function visitNodeForDiagnostics ::
      "nat \<Rightarrow> node \<Rightarrow> json option \<Rightarrow> json \<Rightarrow> document \<Rightarrow> extensionConfig \<Rightarrow> diagnostic list result"
  and visitProperties ::
      "nat \<Rightarrow> node list \<Rightarrow> json \<Rightarrow> json \<Rightarrow> document \<Rightarrow> extensionConfig
         \<Rightarrow> (string list \<times> diagnostic list) result"
  and visitElements ::
      "nat \<Rightarrow> node list \<Rightarrow> nat \<Rightarrow> json option \<Rightarrow> json \<Rightarrow> document \<Rightarrow> extensionConfig
         \<Rightarrow> diagnostic list result"
where
  "visitNodeForDiagnostics fuel (Node ty val off len children) schema rootSchema doc config =
     (if \<not> truthy_opt schema then ret []
      else
        bindR (resolveSchemaNode fuel schema rootSchema []) (\<lambda>resolved.
          if \<not> truthy_opt resolved then ret []
          else
            (let resolvedSchema = the resolved in
             if \<not> isNodeTypeCompatible (Node ty val off len children) resolvedSchema
             then lift (map_sum id (\<lambda>d. [d])
                    (createTypeMismatchDiagnostic (Node ty val off len children) resolvedSchema doc))
             else if ty = ObjectType then
               (if \<not> isObjectSchema resolvedSchema then ret []
                else
                  bindR (lift (requiredSetOf resolvedSchema)) (\<lambda>requiredSet.
                  bindR (visitProperties fuel (childrenOrEmpty children) resolvedSchema rootSchema doc config)
                    (\<lambda>(presentKeys, ds).
                       ret (ds @ missingRequired (Node ty val off len children)
                                   requiredSet presentKeys doc))))
             else if ty = ArrayType then
               (if \<not> isArraySchema resolvedSchema \<or> children = None then ret []
                else visitElements fuel (childrenOrEmpty children) 0 (getProp resolvedSchema ''items'')
                       rootSchema doc config)
             else ret [])))"
| "visitProperties fuel [] resolvedSchema rootSchema doc config = ret ([], [])"
| "visitProperties fuel (propertyNode # rest) resolvedSchema rootSchema doc config =
     (case propertyPair propertyNode of
        None \<Rightarrow> visitProperties fuel rest resolvedSchema rootSchema doc config
      | Some (keyNode, valueNode) \<Rightarrow>
          (case keyOf keyNode of
             None \<Rightarrow> visitProperties fuel rest resolvedSchema rootSchema doc config
           | Some key \<Rightarrow>
               if key = [] then visitProperties fuel rest resolvedSchema rootSchema doc config
               else if key = ''$schema'' then visitProperties fuel rest resolvedSchema rootSchema doc config
               else
                 (let info = getPropertySchemaInfo resolvedSchema key in
                  bindR (if truthy_opt (infoSchema info)
                         then visitNodeForDiagnostics fuel valueNode (infoSchema info) rootSchema doc config
                         else if showUnknownProperties config \<and> \<not> isKnown info
                         then ret [createUnknownPropertyDiagnostic keyNode key doc]
                         else ret []) (\<lambda>ds.
                  bindR (visitProperties fuel rest resolvedSchema rootSchema doc config)
                    (\<lambda>(presentKeys, ds'). ret (key # presentKeys, ds @ ds'))))))"
| "visitElements fuel [] index items rootSchema doc config = ret []"
| "visitElements fuel (element # elements) index items rootSchema doc config =
     bindR (if truthy_opt (resolveArrayItemSchema items index)
            then visitNodeForDiagnostics fuel element (resolveArrayItemSchema items index)
                   rootSchema doc config
            else ret []) (\<lambda>ds.
     bindR (visitElements fuel elements (index + 1) items rootSchema doc config) (\<lambda>ds'.
       ret (ds @ ds')))"
  by pat_completeness auto

termination
  by (relation "measure (\<lambda>x. case x of
          Inl (fuel, node, r) \<Rightarrow> size node
        | Inr (Inl (fuel, nodes, r)) \<Rightarrow> size_list size nodes
        | Inr (Inr (fuel, nodes, r)) \<Rightarrow> size_list size nodes)")
     (auto simp: childrenOrEmpty_def dest: propertyPair_size split: option.splits)

definition collectDiagnostics ::
    "nat \<Rightarrow> node \<Rightarrow> json \<Rightarrow> document \<Rightarrow> extensionConfig \<Rightarrow> diagnostic list result" where
  "collectDiagnostics fuel rootNode schema doc config =
     bindR (resolveSchemaNode fuel (Some schema) schema []) (\<lambda>resolvedRoot.
       if \<not> truthy_opt resolvedRoot then ret []
       else visitNodeForDiagnostics fuel rootNode resolvedRoot schema doc config)"

section \<open>The calls of the resolver\<close>

text \<open>The calls of the resolver. A node hands on the target of its \<^verbatim>\<open>$ref\<close>, when the
  reference is local and leads to a truthy value; otherwise the entries of its \<^verbatim>\<open>allOf\<close>,
  when that is a non-empty array; otherwise the first entry of its \<^verbatim>\<open>oneOf\<close> or, failing
  that, of its \<^verbatim>\<open>anyOf\<close>.\<close>

definition refTarget :: "json \<Rightarrow> json \<Rightarrow> json option" where
  "refTarget rootSchema s =
     (case refOf s of
        None \<Rightarrow> None
      | Some r \<Rightarrow>
          if \<not> startsWith r ''#'' then None
          else (case resolvePointer rootSchema r of
                  None \<Rightarrow> None
                | Some resolved \<Rightarrow> if truthy resolved then Some resolved else None))"

definition allOfEntries :: "json \<Rightarrow> json list" where
  "allOfEntries s =
     (if refOf s = None \<and> hasEntries (getProp s ''allOf'') = Inr True
      then (case getProp s ''allOf'' of Some (JArr entries) \<Rightarrow> entries | _ \<Rightarrow> [])
      else [])"

definition firstEntry :: "json \<Rightarrow> json option" where
  "firstEntry s =
     (if refOf s \<noteq> None \<or> hasEntries (getProp s ''allOf'') \<noteq> Inr False then None
      else if hasEntries (getProp s ''oneOf'') = Inr True
      then getProp (the (getProp s ''oneOf'')) ''0''
      else if hasEntries (getProp s ''oneOf'') = Inr False \<and>
              hasEntries (getProp s ''anyOf'') = Inr True
      then getProp (the (getProp s ''anyOf'')) ''0''
      else None)"

definition successors :: "json \<Rightarrow> json \<Rightarrow> json list" where
  "successors rootSchema s =
     (case refTarget rootSchema s of None \<Rightarrow> [] | Some t \<Rightarrow> [t]) @ allOfEntries s @
     (case firstEntry s of None \<Rightarrow> [] | Some u \<Rightarrow> [u])"

text \<open>The nodes that the resolution of a node can come to.\<close>

inductive reaches :: "json \<Rightarrow> json \<Rightarrow> json \<Rightarrow> bool" for rootSchema where
  here: "reaches rootSchema s s"
| step: "reaches rootSchema s t \<Longrightarrow> u \<in> set (successors rootSchema t) \<Longrightarrow> reaches rootSchema s u"

text \<open>No node that the resolution of \<open>start\<close> comes to holds an \<^verbatim>\<open>allOf\<close> entry whose own
  resolution comes back to that node.\<close>

definition noAllOfCycle :: "json \<Rightarrow> json \<Rightarrow> bool" where
  "noAllOfCycle rootSchema start =
     (\<forall>s e. reaches rootSchema start s \<and> e \<in> set (allOfEntries s) \<longrightarrow> \<not> reaches rootSchema e s)"

text \<open>A chain of references: \<open>s\<close> refers through \<open>r\<close> to a truthy node that continues the
  chain, which ends at \<open>t\<close>.\<close>

fun followsChain :: "json \<Rightarrow> json \<Rightarrow> string list \<Rightarrow> json \<Rightarrow> bool" where
  "followsChain rootSchema s [] t = (s = t)"
| "followsChain rootSchema s (r # rs) t =
     (refOf s = Some r \<and> startsWith r ''#'' \<and>
      (case resolvePointer rootSchema r of
         None \<Rightarrow> False
       | Some u \<Rightarrow> truthy u \<and> followsChain rootSchema u rs t))"

text \<open>A node without a reference and without a composition keyword that has entries.\<close>

definition plainSchema :: "json \<Rightarrow> bool" where
  "plainSchema t =
     (truthy t \<and> refOf t = None \<and> hasEntries (getProp t ''allOf'') = Inr False \<and>
      hasEntries (getProp t ''oneOf'') = Inr False \<and> hasEntries (getProp t ''anyOf'') = Inr False)"

text \<open>The values inside a value, the value itself among them.\<close>

fun subvalues :: "json \<Rightarrow> json set" where
  "subvalues (JObj kvs) = insert (JObj kvs) (\<Union>kv \<in> set kvs. subvalues (snd kv))"
| "subvalues (JArr xs) = insert (JArr xs) (\<Union>x \<in> set xs. subvalues x)"
| "subvalues v = {v}"

text \<open>A value that is neither an object nor an array of the parsed schema.\<close>

definition leafValue :: "json \<Rightarrow> bool" where
  "leafValue v = (case v of JObj kvs \<Rightarrow> False | JArr xs \<Rightarrow> False | _ \<Rightarrow> True)"

section \<open>Example inputs\<close>

definition exampleDocument :: document where
  "exampleDocument = \<lparr>positionAt = (\<lambda>n. (0, n))\<rparr>"

definition exampleConfig :: extensionConfig where
  "exampleConfig = \<lparr>schemaMappings = [], showUnknownProperties = True, enableDiagnostics = True\<rparr>"




definition integerSchema :: json where
  "integerSchema = JObj [(''type'', JStr ''integer'')]"

definition numberNode :: "rat \<Rightarrow> node" where
  "numberNode q = Node NumberType (Some (JNum (Finite q))) 0 1 None"

definition tupleItems :: "json list" where
  "tupleItems = [JObj [(''type'', JStr ''string'')], JObj [(''type'', JStr ''number'')]]"

definition tupleSchema :: json where
  "tupleSchema = JObj [(''type'', JStr ''array''), (''items'', JArr tupleItems)]"

definition stringNode :: "string \<Rightarrow> nat \<Rightarrow> nat \<Rightarrow> node" where
  "stringNode s off len = Node StringType (Some (JStr s)) off len None"

definition threeStrings :: "node list" where
  "threeStrings = [stringNode ''a'' 1 3, stringNode ''b'' 6 3, stringNode ''c'' 11 3]"

text \<open>The nodes of a document tree, the node itself first.\<close>

fun subnodes :: "node \<Rightarrow> node list" where
  "subnodes (Node ty val off len children) =
     Node ty val off len children #
       (case children of None \<Rightarrow> [] | Some cs \<Rightarrow> concat (map subnodes cs))"

definition emptyObjectNode :: node where
  "emptyObjectNode = Node ObjectType None 7 250 (Some [])"

definition nameRequired :: json where
  "nameRequired = JObj [(''type'', JStr ''object''), (''required'', JArr [JStr ''name''])]"

text \<open>The keys that the first loop of the object case counts as present among the
  children of an object node.\<close>

fun presentKeysOf :: "node list \<Rightarrow> string list" where
  "presentKeysOf [] = []"
| "presentKeysOf (propertyNode # rest) =
     (case propertyPair propertyNode of
        None \<Rightarrow> presentKeysOf rest
      | Some (keyNode, valueNode) \<Rightarrow>
          (case keyOf keyNode of
             None \<Rightarrow> presentKeysOf rest
           | Some key \<Rightarrow>
               if key = [] \<or> key = ''$schema'' then presentKeysOf rest
               else key # presentKeysOf rest))"

text \<open>The missing-required diagnostic for the key \<open>key\<close>, anchored at the offset \<open>off\<close>.\<close>

definition missingRequiredAt :: "document \<Rightarrow> nat \<Rightarrow> string \<Rightarrow> diagnostic" where
  "missingRequiredAt doc off key =
     \<lparr>drange = SRange (positionAt doc off) (positionAt doc (off + 1)),
      message = ''Missing required property '' @ dquote @ key @ dquote @ ''.'',
      severity = Warning\<rparr>"

text \<open>A diagnostic \<open>d\<close> that is a missing-required diagnostic names a key, and has the
  one-character range at the start of an object node among \<open>nodes\<close> that has no property
  of that key.\<close>

definition missingAt :: "document \<Rightarrow> node list \<Rightarrow> diagnostic \<Rightarrow> bool" where
  "missingAt doc nodes d =
     (startsWith (message d) ''Missing required property '' \<longrightarrow>
      (\<exists>n \<in> set nodes. \<exists>key. ntype n = ObjectType \<and>
         key \<notin> set (presentKeysOf (childrenOrEmpty (nchildren n))) \<and>
         d = missingRequiredAt doc (noffset n) key))"

text \<open>An object that lacks the required key \<^verbatim>\<open>b\<close> and holds, under \<^verbatim>\<open>a\<close>, an object that
  has \<^verbatim>\<open>b\<close> and lacks the required key \<^verbatim>\<open>c\<close>.\<close>

definition nestedInner :: node where
  "nestedInner = Node ObjectType None 9 15 (Some [
     Node PropertyType None 11 6 (Some [stringNode ''b'' 11 3,
       Node NumberType (Some (JNum (Finite 1))) 16 1 None])])"

definition nestedOuter :: node where
  "nestedOuter = Node ObjectType None 2 30 (Some [
     Node PropertyType None 4 20 (Some [stringNode ''a'' 4 3, nestedInner])])"

definition nestedRequired :: json where
  "nestedRequired = JObj [(''type'', JStr ''object''), (''required'', JArr [JStr ''b'']),
     (''properties'', JObj [(''a'',
        JObj [(''type'', JStr ''object''), (''properties'', JObj [(''b'', JObj [(''type'', JStr ''number'')])]),
              (''required'', JArr [JStr ''c''])])])]"

text \<open>The entries that one branch adds to the merged \<^verbatim>\<open>required\<close>.\<close>

definition requiredEntries :: "json \<Rightarrow> json list" where
  "requiredEntries schema =
     (if truthy schema \<and> truthy_opt (getProp schema ''required'')
      then (case iterate (the (getProp schema ''required'')) of Inl e \<Rightarrow> [] | Inr ys \<Rightarrow> ys)
      else [])"

text \<open>The entries of the \<^verbatim>\<open>required\<close> array of a merged node.\<close>

definition requiredOf :: "json \<Rightarrow> json set" where
  "requiredOf merged = set (arrayOrEmpty (getProp merged ''required''))"

definition typeString :: json where "typeString = JObj [(''type'', JStr ''string'')]"
definition typeNumber :: json where "typeNumber = JObj [(''type'', JStr ''number'')]"
definition itemsString :: json where "itemsString = JObj [(''items'', typeString)]"
definition itemsNumber :: json where "itemsNumber = JObj [(''items'', typeNumber)]"
definition closedObject :: json where "closedObject = JObj [(''additionalProperties'', JBool False)]"
definition openObject :: json where "openObject = JObj [(''additionalProperties'', JBool True)]"
definition requiresAB :: json where "requiresAB = JObj [(''required'', JArr [JStr ''a'', JStr ''b''])]"
definition requiresBC :: json where "requiresBC = JObj [(''required'', JArr [JStr ''b'', JStr ''c''])]"

text \<open>A branch specifies a field when the round of the merge loop stores it; \<open>requiredOk\<close>
  is the shape of \<^verbatim>\<open>merged.required\<close> between rounds: unset, or an array of primitive values.\<close>

definition specifiesType :: "json \<Rightarrow> bool" where
  "specifiesType schema = (truthy schema \<and> truthy_opt (getProp schema ''type''))"

definition specifiesItems :: "json \<Rightarrow> bool" where
  "specifiesItems schema = (truthy schema \<and> truthy_opt (getProp schema ''items''))"

definition specifiesAdditional :: "json \<Rightarrow> bool" where
  "specifiesAdditional schema = (truthy schema \<and> getProp schema ''additionalProperties'' \<noteq> None)"

definition specifiesRequired :: "json \<Rightarrow> bool" where
  "specifiesRequired schema = (truthy schema \<and> truthy_opt (getProp schema ''required''))"

definition requiredOk :: "(string \<times> json) list \<Rightarrow> bool" where
  "requiredOk merged =
     (case map_of merged ''required'' of
        None \<Rightarrow> True
      | Some (JArr rs) \<Rightarrow> list_all isPrimitive rs
      | Some v \<Rightarrow> False)"

definition stringOrNumberOneOf :: json where
  "stringOrNumberOneOf = JObj [(''oneOf'', JArr [typeString, typeNumber])]"

definition stringOrNumberAnyOf :: json where
  "stringOrNumberAnyOf = JObj [(''anyOf'', JArr [typeString, typeNumber])]"

definition remoteFirst :: json where
  "remoteFirst = JObj [(''oneOf'', JArr [JObj [(''$ref'', JStr ''http://example.com/s.json'')], typeNumber])]"

definition remoteRef :: json where
  "remoteRef = JObj [(''$ref'', JStr ''http://example.com/s.json'')]"

definition danglingRef :: json where
  "danglingRef = JObj [(''$ref'', JStr ''#/definitions/missing'')]"

definition allRemote :: json where
  "allRemote = JObj [(''allOf'', JArr [remoteRef, danglingRef])]"

definition emptyRoot :: json where
  "emptyRoot = JObj [(''definitions'', JObj [])]"

definition personNode :: node where
  "personNode = Node ObjectType None 0 14 (Some [
     Node PropertyType None 1 12 (Some [stringNode ''name'' 1 6, stringNode ''Ada'' 9 5])])"










definition quietConfig :: extensionConfig where
  "quietConfig = \<lparr>schemaMappings = [], showUnknownProperties = False, enableDiagnostics = True\<rparr>"

text \<open>A child of an object that is a well-formed property with the key \<^verbatim>\<open>$schema\<close>.\<close>

definition isSchemaProperty :: "node \<Rightarrow> bool" where
  "isSchemaProperty p =
     (case propertyPair p of
        None \<Rightarrow> False
      | Some (keyNode, valueNode) \<Rightarrow> keyOf keyNode = Some ''$schema'')"

definition withoutSchemaProperties :: "node list \<Rightarrow> node list" where
  "withoutSchemaProperties props = filter (\<lambda>p. \<not> isSchemaProperty p) props"

definition schemaRequired :: json where
  "schemaRequired = JObj [(''type'', JStr ''object''),
     (''properties'', JObj [(''$schema'', typeString), (''name'', typeString)]),
     (''required'', JArr [JStr ''$schema'', JStr ''name'']),
     (''additionalProperties'', JBool False)]"

definition numericSchemaKey :: node where
  "numericSchemaKey = Node ObjectType None 0 14 (Some [
     Node PropertyType None 1 12 (Some [stringNode ''$schema'' 1 9, numberNode 5])])"

text \<open>A reference that comes back to itself through an \<^verbatim>\<open>allOf\<close>: \<^verbatim>\<open>definitions.x\<close> holds an
  \<^verbatim>\<open>allOf\<close> whose only entry refers to \<^verbatim>\<open>definitions.x\<close>.\<close>

definition loopRoot :: json where
  "loopRoot = JObj [(''definitions'', JObj [(''x'',
     JObj [(''allOf'', JArr [JObj [(''$ref'', JStr ''#/definitions/x'')]])])])]"

definition loopStart :: json where
  "loopStart = JObj [(''$ref'', JStr ''#/definitions/x'')]"

text \<open>A chain of \<open>n + 1\<close> references without a cycle: \<^verbatim>\<open>definitions\<close> holds the entries
  \<^verbatim>\<open>d\<close>, \<^verbatim>\<open>dd\<close>, \<^verbatim>\<open>ddd\<close>, ..., each a reference to the next, the last one a string
  schema.\<close>

definition chainName :: "nat \<Rightarrow> string" where
  "chainName i = replicate (Suc i) CHR ''d''"

definition chainPointer :: "nat \<Rightarrow> string" where
  "chainPointer i = ''#/definitions/'' @ chainName i"

definition chainRef :: "nat \<Rightarrow> json" where
  "chainRef i = JObj [(''$ref'', JStr (chainPointer i))]"

definition chainLink :: "nat \<Rightarrow> nat \<Rightarrow> json" where
  "chainLink n i = (if i < n then chainRef (Suc i) else typeString)"

definition chainRoot :: "nat \<Rightarrow> json" where
  "chainRoot n = JObj [(''definitions'', JObj (map (\<lambda>i. (chainName i, chainLink n i)) [0..<Suc n]))]"

definition selfRoot :: json where
  "selfRoot = JObj [(''definitions'', JObj [(''x'', JObj [(''$ref'', JStr ''#/definitions/x'')])])]"




text \<open>A reference to a member that the empty \<^verbatim>\<open>definitions\<close> object inherits, and an
  \<^verbatim>\<open>allOf\<close> of that reference alone.\<close>

definition toStringRef :: json where
  "toStringRef = JObj [(''$ref'', JStr ''#/definitions/toString'')]"

definition allInherited :: json where
  "allInherited = JObj [(''allOf'', JArr [toStringRef])]"

text \<open>An acyclic schema with an \<^verbatim>\<open>allOf\<close>: \<^verbatim>\<open>definitions.b\<close> merges a reference to
  \<^verbatim>\<open>definitions.a\<close> with a \<^verbatim>\<open>required\<close> list.\<close>

definition refA :: json where
  "refA = JObj [(''$ref'', JStr ''#/definitions/a'')]"

definition requiresX :: json where
  "requiresX = JObj [(''required'', JArr [JStr ''x''])]"

definition mergedB :: json where
  "mergedB = JObj [(''allOf'', JArr [refA, requiresX])]"

definition acyclicRoot :: json where
  "acyclicRoot = JObj [(''definitions'', JObj [(''a'', typeString), (''b'', mergedB)])]"

definition refB :: json where
  "refB = JObj [(''$ref'', JStr ''#/definitions/b'')]"

section \<open>Basic facts\<close>

text \<open>None of the schema keywords is the name of an inherited member: a read of a
  keyword finds an own property or nothing.\<close>

lemma lookupMember_keyword [simp]:
  "lookupMember p ''$ref'' = None"
  "lookupMember p ''allOf'' = None"
  "lookupMember p ''oneOf'' = None"
  "lookupMember p ''anyOf'' = None"
  "lookupMember p ''type'' = None"
  "lookupMember p ''properties'' = None"
  "lookupMember p ''required'' = None"
  "lookupMember p ''items'' = None"
  "lookupMember p ''additionalProperties'' = None"
  by (cases p; simp add: ownMember_def)+

lemma inherited_keyword [simp]:
  "inherited p ''$ref'' = None"
  "inherited p ''allOf'' = None"
  "inherited p ''oneOf'' = None"
  "inherited p ''anyOf'' = None"
  "inherited p ''type'' = None"
  "inherited p ''properties'' = None"
  "inherited p ''required'' = None"
  "inherited p ''items'' = None"
  "inherited p ''additionalProperties'' = None"
  by (simp_all add: inherited_def)

lemma getProp_JObj_keyword [simp]:
  "getProp (JObj kvs) ''$ref'' = map_of kvs ''$ref''"
  "getProp (JObj kvs) ''allOf'' = map_of kvs ''allOf''"
  "getProp (JObj kvs) ''oneOf'' = map_of kvs ''oneOf''"
  "getProp (JObj kvs) ''anyOf'' = map_of kvs ''anyOf''"
  "getProp (JObj kvs) ''type'' = map_of kvs ''type''"
  "getProp (JObj kvs) ''properties'' = map_of kvs ''properties''"
  "getProp (JObj kvs) ''required'' = map_of kvs ''required''"
  "getProp (JObj kvs) ''items'' = map_of kvs ''items''"
  "getProp (JObj kvs) ''additionalProperties'' = map_of kvs ''additionalProperties''"
  by (simp_all split: option.splits)

lemma getProp_builtin_keyword [simp]:
  "getProp (JBuiltin b) ''$ref'' = None"
  "getProp (JBuiltin b) ''allOf'' = None"
  "getProp (JBuiltin b) ''oneOf'' = None"
  "getProp (JBuiltin b) ''anyOf'' = None"
  "getProp (JBuiltin b) ''type'' = None"
  "getProp (JBuiltin b) ''properties'' = None"
  "getProp (JBuiltin b) ''required'' = None"
  "getProp (JBuiltin b) ''items'' = None"
  "getProp (JBuiltin b) ''additionalProperties'' = None"
  by (cases b; simp)+

lemma getProp_JObj: 
  "getProp (JObj kvs) k = (case map_of kvs k of Some v \<Rightarrow> Some v | None \<Rightarrow> inherited ObjectPrototype k)"
  by simp

declare getProp.simps(1) [simp del]

lemma bindR_simps [simp]:
  "bindR None f = None"
  "bindR (Some (Inl e)) f = Some (Inl e)"
  "bindR (Some (Inr v)) f = f v"
  "bindR (ret v) f = f v"
  by (simp_all add: bindR_def ret_def)

lemma resolveSchemaNode_Some_truthy:
  "resolveSchemaNode fuel schema rootSchema seen = Some (Inr (Some rs)) \<Longrightarrow> truthy_opt schema"
  by (cases fuel; cases schema) (auto simp: truthy_opt_def split: if_splits)

text \<open>A builtin as a schema: it resolves to itself, expects no type and is neither an
  object schema nor an array schema, so the matcher has nothing to report against it.\<close>

lemma resolve_builtin:
  "resolveSchemaNode (Suc fuel) (Some (JBuiltin b)) rootSchema seen = Some (Inr (Some (JBuiltin b)))"
  by (simp add: refOf_def hasEntries_def)

lemma visit_resolved_builtin:
  "resolveSchemaNode fuel schema rootSchema [] = Some (Inr (Some (JBuiltin b))) \<Longrightarrow>
   visitNodeForDiagnostics fuel node schema rootSchema doc config = Some (Inr [])"
  by (cases node)
     (auto simp: resolveSchemaNode_Some_truthy truthy_opt_def isNodeTypeCompatible_def
        getSchemaTypeCandidates_def isObjectSchema_def isArraySchema_def toTypeArray_def
        arrayIncludes_def ret_def Let_def)




section \<open>The text of a type mismatch\<close>




section \<open>Numbers against the type integer\<close>

lemma isInteger_iff: "isInteger n = (\<exists>z::int. n = Finite (of_int z))"
proof (cases n)
  case (Finite q)
  have "(of_int \<lfloor>q\<rfloor> = q) = (\<exists>z::int. q = of_int z)"
  proof
    assume a: "of_int \<lfloor>q\<rfloor> = q"
    show "\<exists>z::int. q = of_int z"
      by (rule exI [of _ "\<lfloor>q\<rfloor>"]) (rule a [symmetric])
  next
    assume "\<exists>z::int. q = of_int z"
    then obtain z :: int where z: "q = of_int z" ..
    have "\<lfloor>of_int z :: rat\<rfloor> = z" by (rule floor_of_int)
    with z show "of_int \<lfloor>q\<rfloor> = q" by (simp only:)
  qed
  with Finite show ?thesis by (simp only: isInteger.simps jsnumber.inject)
qed simp_all

text \<open>C6: a number node matched against a schema whose expected types contain
  \<^verbatim>\<open>integer\<close> but not \<^verbatim>\<open>number\<close> is compatible exactly when its decoded value is a
  number that is a mathematical integer; the kind of the node alone never suffices.\<close>

theorem C6_integer_compatibility:
  "ntype node = NumberType \<and>
   arrayIncludes (getSchemaTypeCandidates schema) ''integer'' \<and>
   \<not> arrayIncludes (getSchemaTypeCandidates schema) ''number''
   \<longrightarrow> isNodeTypeCompatible node schema = (\<exists>z::int. nvalue node = Some (JNum (Finite (of_int z))))"
proof
  assume a: "ntype node = NumberType \<and>
   arrayIncludes (getSchemaTypeCandidates schema) ''integer'' \<and>
   \<not> arrayIncludes (getSchemaTypeCandidates schema) ''number''"
  then have ne: "getSchemaTypeCandidates schema \<noteq> []"
    by (auto simp: arrayIncludes_def)
  show "isNodeTypeCompatible node schema = (\<exists>z::int. nvalue node = Some (JNum (Finite (of_int z))))"
    using a ne
    by (auto simp: isNodeTypeCompatible_def Let_def isInteger_iff
             split: option.splits json.splits)
qed

theorem C6_integer_compatibility_witness:
  "isNodeTypeCompatible (numberNode 3) integerSchema \<and>
   \<not> isNodeTypeCompatible (numberNode (3 / 2)) integerSchema"
proof -
  have 1: "arrayIncludes (getSchemaTypeCandidates integerSchema) ''integer''" by code_simp
  have 2: "\<not> arrayIncludes (getSchemaTypeCandidates integerSchema) ''number''" by code_simp
  have 3: "ntype (numberNode q) = NumberType" "nvalue (numberNode q) = Some (JNum (Finite q))" for q
    by (simp_all add: numberNode_def)
  have "isInteger (Finite 3)" by code_simp
  then have 4: "\<exists>z::int. Finite 3 = Finite (of_int z)" unfolding isInteger_iff .
  have "\<not> isInteger (Finite (3 / 2))" by code_simp
  then have 5: "\<not> (\<exists>z::int. Finite (3 / 2) = Finite (of_int z))" unfolding isInteger_iff .
  show ?thesis
    using C6_integer_compatibility [of "numberNode 3" integerSchema]
          C6_integer_compatibility [of "numberNode (3 / 2)" integerSchema] 1 2 3 4 5
    by simp
qed

section \<open>Item schemas of an array\<close>

lemma visitNodeForDiagnostics_falsy:
  "\<not> truthy_opt schema \<Longrightarrow> visitNodeForDiagnostics fuel node schema rootSchema doc config = ret []"
  by (cases node) simp

lemma collect_Cons:
  "collect (r # rs) = bindR r (\<lambda>v. bindR (collect rs) (\<lambda>vs. ret (v # vs)))"
  by (auto simp: bindR_def ret_def split: option.splits sum.splits)

lemma bindR_assoc: "bindR (bindR m f) g = bindR m (\<lambda>v. bindR (f v) g)"
  by (auto simp: bindR_def split: option.splits sum.splits)

lemma visitElements_Cons:
  "visitElements fuel (element # elements) index items rootSchema doc config =
     bindR (visitNodeForDiagnostics fuel element (resolveArrayItemSchema items index) rootSchema doc config)
       (\<lambda>ds. bindR (visitElements fuel elements (Suc index) items rootSchema doc config)
          (\<lambda>ds'. ret (ds @ ds')))"
  by (simp add: visitNodeForDiagnostics_falsy)

lemma visitElements_positions:
  "visitElements fuel elements index items rootSchema doc config =
     bindR (collect (map (\<lambda>(i, element).
                visitNodeForDiagnostics fuel element (resolveArrayItemSchema items i) rootSchema doc config)
              (zip [index..<index + length elements] elements)))
       (\<lambda>dss. ret (concat dss))"
proof (induction elements arbitrary: index)
  case Nil
  show ?case by (simp add: ret_def)
next
  case (Cons element elements)
  have z: "zip [index..<index + length (element # elements)] (element # elements) =
           (index, element) # zip [Suc index..<Suc index + length elements] elements"
    using upt_conv_Cons [of index "index + Suc (length elements)"] by (simp del: upt_Suc)
  show ?case
    unfolding z visitElements_Cons Cons.IH [of "Suc index"]
    by (simp add: collect_Cons bindR_assoc del: collect.simps upt_Suc visitElements.simps)
qed

text \<open>C7: the item schema for position \<open>i\<close>. A single schema node serves every
  index; a sequence gives its entry at \<open>i\<close> when \<open>i\<close> is within its length (an entry
  that is a schema node, so not \<^verbatim>\<open>null\<close>), its last entry when \<open>i\<close> is beyond its length, and
  nothing when it is empty. The matcher visits the element at position \<open>i\<close> of an array
  node with exactly that schema, in index order.\<close>

theorem C7_item_schema:
  "(truthy single \<and> (\<forall>xs. single \<noteq> JArr xs)
      \<longrightarrow> resolveArrayItemSchema (Some single) h = Some single)
   \<and> (i < length xs \<and> xs ! i \<noteq> JNull
      \<longrightarrow> resolveArrayItemSchema (Some (JArr xs)) i = Some (xs ! i))
   \<and> (length ys \<le> j \<and> ys \<noteq> []
      \<longrightarrow> resolveArrayItemSchema (Some (JArr ys)) j = Some (last ys))
   \<and> resolveArrayItemSchema (Some (JArr [])) k = None
   \<and> (resolveSchemaNode fuel schema rootSchema [] = Some (Inr (Some rs)) \<and> truthy rs \<and>
       isNodeTypeCompatible (Node ArrayType val off len (Some elements)) rs \<and> isArraySchema rs
      \<longrightarrow> visitNodeForDiagnostics fuel (Node ArrayType val off len (Some elements)) schema rootSchema doc config =
          bindR (collect (map (\<lambda>(i, element).
                     visitNodeForDiagnostics fuel element
                       (resolveArrayItemSchema (getProp rs ''items'') i) rootSchema doc config)
                   (zip [0..<length elements] elements)))
            (\<lambda>dss. ret (concat dss)))"
proof (intro conjI impI)
  assume "truthy single \<and> (\<forall>xs. single \<noteq> JArr xs)"
  then show "resolveArrayItemSchema (Some single) h = Some single"
    by (cases single) (auto simp: resolveArrayItemSchema_def)
next
  assume "i < length xs \<and> xs ! i \<noteq> JNull"
  then show "resolveArrayItemSchema (Some (JArr xs)) i = Some (xs ! i)"
    by (simp add: resolveArrayItemSchema_def)
next
  assume "length ys \<le> j \<and> ys \<noteq> []"
  then show "resolveArrayItemSchema (Some (JArr ys)) j = Some (last ys)"
    by (simp add: resolveArrayItemSchema_def last_conv_nth)
next
  show "resolveArrayItemSchema (Some (JArr [])) k = None"
    by (simp add: resolveArrayItemSchema_def)
next
  assume a: "resolveSchemaNode fuel schema rootSchema [] = Some (Inr (Some rs)) \<and> truthy rs \<and>
       isNodeTypeCompatible (Node ArrayType val off len (Some elements)) rs \<and> isArraySchema rs"
  then have t: "truthy_opt schema" by (auto dest: resolveSchemaNode_Some_truthy)
  show "visitNodeForDiagnostics fuel (Node ArrayType val off len (Some elements)) schema rootSchema doc config =
          bindR (collect (map (\<lambda>(i, element).
                     visitNodeForDiagnostics fuel element
                       (resolveArrayItemSchema (getProp rs ''items'') i) rootSchema doc config)
                   (zip [0..<length elements] elements)))
            (\<lambda>dss. ret (concat dss))"
    using a t
    by (simp add: truthy_opt_def childrenOrEmpty_def
          visitElements_positions [of fuel elements 0, simplified])
qed

theorem C7_item_schema_witness:
  "resolveArrayItemSchema (Some integerSchema) 5 = Some integerSchema
   \<and> resolveArrayItemSchema (Some (JArr tupleItems)) 1 = Some (JObj [(''type'', JStr ''number'')])
   \<and> resolveArrayItemSchema (Some (JArr tupleItems)) 2 = Some (JObj [(''type'', JStr ''number'')])
   \<and> visitNodeForDiagnostics 1 (Node ArrayType None 0 15 (Some threeStrings)) (Some tupleSchema)
         tupleSchema exampleDocument exampleConfig =
       Some (Inr [\<lparr>drange = SRange (0, 6) (0, 9),
                     message = ''Type mismatch: expected number.'', severity = Warning\<rparr>,
                  \<lparr>drange = SRange (0, 11) (0, 14),
                     message = ''Type mismatch: expected number.'', severity = Warning\<rparr>])"
proof -
  have 1: "truthy integerSchema \<and> (\<forall>xs. integerSchema \<noteq> JArr xs)"
    by (simp add: integerSchema_def)
  have 2: "1 < length tupleItems \<and> tupleItems ! 1 \<noteq> JNull"
    by (simp add: tupleItems_def)
  have 3: "length tupleItems \<le> 2 \<and> tupleItems \<noteq> []"
    by (simp add: tupleItems_def)
  have 4: "resolveSchemaNode 1 (Some tupleSchema) tupleSchema [] = Some (Inr (Some tupleSchema)) \<and>
           truthy tupleSchema \<and>
           isNodeTypeCompatible (Node ArrayType None 0 15 (Some threeStrings)) tupleSchema \<and>
           isArraySchema tupleSchema"
    by code_simp
  have 5: "tupleItems ! 1 = JObj [(''type'', JStr ''number'')]"
          "last tupleItems = JObj [(''type'', JStr ''number'')]"
    by (simp_all add: tupleItems_def)
  have 6: "bindR (collect (map (\<lambda>(i, element).
                     visitNodeForDiagnostics 1 element
                       (resolveArrayItemSchema (getProp tupleSchema ''items'') i) tupleSchema
                       exampleDocument exampleConfig)
                   (zip [0..<length threeStrings] threeStrings)))
            (\<lambda>dss. ret (concat dss)) =
       Some (Inr [\<lparr>drange = SRange (0, 6) (0, 9),
                     message = ''Type mismatch: expected number.'', severity = Warning\<rparr>,
                  \<lparr>drange = SRange (0, 11) (0, 14),
                     message = ''Type mismatch: expected number.'', severity = Warning\<rparr>])"
    by code_simp
  show ?thesis
    using C7_item_schema [where single = integerSchema and h = 5 and i = 1 and xs = tupleItems
        and j = 2 and ys = tupleItems and fuel = 1 and schema = "Some tupleSchema"
        and rootSchema = tupleSchema and rs = tupleSchema and val = None and off = 0 and len = 15
        and elements = threeStrings and doc = exampleDocument and config = exampleConfig] 1 2 3 4
    by (simp only: 5 6 simp_thms)
qed

section \<open>The range of a missing-required diagnostic\<close>

lemma startsWith_simps [simp]:
  "startsWith s [] = True"
  "startsWith [] (c # p) = False"
  "startsWith (a # s) (c # p) = (a = c \<and> startsWith s p)"
  by (auto simp: startsWith_def)

lemma subnodes_self: "node \<in> set (subnodes node)"
  by (cases node) simp

lemma subnodes_child:
  "c \<in> set cs \<Longrightarrow> n \<in> set (subnodes c) \<Longrightarrow> n \<in> set (subnodes (Node ty val off len (Some cs)))"
  by auto

lemma subnodes_value:
  "propertyPair p = Some (k, v) \<Longrightarrow> n \<in> set (subnodes v) \<Longrightarrow> n \<in> set (subnodes p)"
  by (cases p) (auto simp: propertyPair_def split: if_splits option.splits list.splits)

lemma typeMismatch_not_missing:
  "createTypeMismatchDiagnostic node schema doc = Inr d \<Longrightarrow>
   \<not> startsWith (message d) ''Missing required property ''"
  by (auto simp: createTypeMismatchDiagnostic_def Let_def split: sum.splits if_splits)

lemma unknownProperty_not_missing:
  "\<not> startsWith (message (createUnknownPropertyDiagnostic keyNode key doc)) ''Missing required property ''"
  by (simp add: createUnknownPropertyDiagnostic_def)

lemma missingRequired_eq:
  "missingRequired node requiredSet presentKeys doc =
     map (missingRequiredAt doc (noffset node))
       (filter (\<lambda>key. key \<noteq> ''$schema'' \<and> key \<notin> set presentKeys) requiredSet)"
  by (simp add: missingRequired_def createMissingRequiredDiagnostic_def missingRequiredAt_def
        toRange_def Let_def)

lemma missingAt_mono: "set ns \<subseteq> set ms \<Longrightarrow> missingAt doc ns d \<Longrightarrow> missingAt doc ms d"
  by (auto simp: missingAt_def)

lemma missingAt_append:
  "missingAt doc ns d \<Longrightarrow> missingAt doc (ns @ ms) d"
  "missingAt doc ms d \<Longrightarrow> missingAt doc (ns @ ms) d"
  by (auto simp: missingAt_def)

lemma bindR_Some_Inr:
  "bindR m f = Some (Inr y) \<Longrightarrow> \<exists>v. m = Some (Inr v) \<and> f v = Some (Inr y)"
  by (auto simp: bindR_def split: option.splits sum.splits)

lemma ret_eq [simp]: "(ret x = Some (Inr y)) = (x = y)"
  by (simp add: ret_def)

lemma lift_eq [simp]: "(lift r = Some (Inr y)) = (r = Inr y)"
  by (simp add: lift_def)

lemma visitProperties_keys:
  "visitProperties fuel props resolvedSchema rootSchema doc config = Some (Inr (keys, ds)) \<Longrightarrow>
   keys = presentKeysOf props"
proof (induction props arbitrary: keys ds)
  case Nil
  then show ?case by simp
next
  case (Cons p props)
  show ?case
  proof (cases "propertyPair p")
    case None
    with Cons show ?thesis by simp
  next
    case (Some kv)
    obtain keyNode valueNode where kv: "kv = (keyNode, valueNode)" by (cases kv)
    show ?thesis
    proof (cases "keyOf keyNode")
      case None
      with Cons Some kv show ?thesis by simp
    next
      case key: (Some key)
      show ?thesis
      proof (cases "key = [] \<or> key = ''$schema''")
        case True
        with Cons Some kv key show ?thesis by (auto split: if_splits)
      next
        case False
        with Cons.prems Some kv key obtain keys' ds' where
          "visitProperties fuel props resolvedSchema rootSchema doc config = Some (Inr (keys', ds'))"
          "keys = key # keys'"
          by (auto simp: Let_def dest!: bindR_Some_Inr)
        with Cons.IH Some kv key False show ?thesis by auto
      qed
    qed
  qed
qed

lemma missing_ranges:
  "(\<forall>ds. visitNodeForDiagnostics fuel node schema rootSchema doc config = Some (Inr ds)
      \<longrightarrow> (\<forall>d \<in> set ds. missingAt doc (subnodes node) d))"
  "(\<forall>keys ds. visitProperties fuel props resolvedSchema rootSchema doc config = Some (Inr (keys, ds))
      \<longrightarrow> (\<forall>d \<in> set ds. missingAt doc (concat (map subnodes props)) d))"
  "(\<forall>ds. visitElements fuel elements index items rootSchema doc config = Some (Inr ds)
      \<longrightarrow> (\<forall>d \<in> set ds. missingAt doc (concat (map subnodes elements)) d))"
proof (induction fuel node schema rootSchema doc config
         and fuel props resolvedSchema rootSchema doc config
         and fuel elements index items rootSchema doc config
       rule: visitNodeForDiagnostics_visitProperties_visitElements.induct)
  case (1 fuel ty val off len children schema rootSchema doc config)
  let ?node = "Node ty val off len children"
  show ?case
  proof (intro allI impI ballI)
    fix ds d
    assume eq: "visitNodeForDiagnostics fuel ?node schema rootSchema doc config = Some (Inr ds)"
       and d: "d \<in> set ds"
    show "missingAt doc (subnodes ?node) d"
    proof (cases "truthy_opt schema")
      case False
      with eq d show ?thesis by simp
    next
      case True
      with eq obtain resolved where
        res: "resolveSchemaNode fuel schema rootSchema [] = Some (Inr resolved)" and
        rest: "(if \<not> truthy_opt resolved then ret []
          else
            (let resolvedSchema = the resolved in
             if \<not> isNodeTypeCompatible ?node resolvedSchema
             then lift (map_sum id (\<lambda>d. [d]) (createTypeMismatchDiagnostic ?node resolvedSchema doc))
             else if ty = ObjectType then
               (if \<not> isObjectSchema resolvedSchema then ret []
                else
                  bindR (lift (requiredSetOf resolvedSchema)) (\<lambda>requiredSet.
                  bindR (visitProperties fuel (childrenOrEmpty children) resolvedSchema rootSchema doc config)
                    (\<lambda>(presentKeys, ds).
                       ret (ds @ missingRequired ?node requiredSet presentKeys doc))))
             else if ty = ArrayType then
               (if \<not> isArraySchema resolvedSchema \<or> children = None then ret []
                else visitElements fuel (childrenOrEmpty children) 0 (getProp resolvedSchema ''items'')
                       rootSchema doc config)
             else ret [])) = Some (Inr ds)"
        by (auto dest!: bindR_Some_Inr)
      show ?thesis
      proof (cases "truthy_opt resolved")
        case False
        with rest d show ?thesis by simp
      next
        case tr: True
        show ?thesis
        proof (cases "isNodeTypeCompatible ?node (the resolved)")
          case False
          with rest tr d show ?thesis
            by (cases "createTypeMismatchDiagnostic ?node (the resolved) doc")
               (auto simp: missingAt_def Let_def dest: typeMismatch_not_missing)
        next
          case comp: True
          show ?thesis
          proof (cases "ty = ObjectType")
            case obj: True
            show ?thesis
            proof (cases "isObjectSchema (the resolved)")
              case False
              with rest tr comp obj d show ?thesis by (simp add: Let_def)
            next
              case os: True
              from rest tr comp obj os obtain requiredSet presentKeys ds' where
                rq: "lift (requiredSetOf (the resolved)) = Some (Inr requiredSet)" and
                vp: "visitProperties fuel (childrenOrEmpty children) (the resolved) rootSchema doc config
                       = Some (Inr (presentKeys, ds'))" and
                dseq: "ds = ds' @ missingRequired ?node requiredSet presentKeys doc"
                by (auto simp: Let_def dest!: bindR_Some_Inr)
              from d dseq consider "d \<in> set ds'"
                | "d \<in> set (missingRequired ?node requiredSet presentKeys doc)" by auto
              then show ?thesis
              proof cases
                case 1
                have "missingAt doc (concat (map subnodes (childrenOrEmpty children))) d"
                  using "1.IH"(1) [of resolved "the resolved"] True tr comp obj os vp 1 by auto
                then show ?thesis
                  by (rule missingAt_mono [rotated]) (auto simp: childrenOrEmpty_def split: option.splits)
              next
                case 2
                from visitProperties_keys [OF vp]
                have keys: "presentKeys = presentKeysOf (childrenOrEmpty children)" .
                from 2 obtain key where
                  "key \<notin> set presentKeys" "d = missingRequiredAt doc off key"
                  by (auto simp: missingRequired_eq)
                with keys obj show ?thesis
                  unfolding missingAt_def by (intro impI bexI [of _ ?node] exI [of _ key]) simp_all
              qed
            qed
          next
            case nobj: False
            show ?thesis
            proof (cases "ty = ArrayType \<and> isArraySchema (the resolved) \<and> children \<noteq> None")
              case False
              with rest tr comp nobj d show ?thesis by (auto simp: Let_def split: if_splits)
            next
              case arr: True
              with rest tr comp nobj have
                ve: "visitElements fuel (childrenOrEmpty children) 0 (getProp (the resolved) ''items'')
                       rootSchema doc config = Some (Inr ds)"
                by (auto simp: Let_def)
              have "missingAt doc (concat (map subnodes (childrenOrEmpty children))) d"
                using "1.IH"(2) [of resolved "the resolved"] True tr comp nobj arr ve d by auto
              then show ?thesis
                by (rule missingAt_mono [rotated]) (auto simp: childrenOrEmpty_def split: option.splits)
            qed
          qed
        qed
      qed
    qed
  qed
next
  case (2 fuel resolvedSchema rootSchema doc config)
  then show ?case by simp
next
  case (3 fuel propertyNode rest resolvedSchema rootSchema doc config)
  show ?case
  proof (intro allI impI ballI)
    fix keys ds d
    assume eq: "visitProperties fuel (propertyNode # rest) resolvedSchema rootSchema doc config
                  = Some (Inr (keys, ds))"
       and d: "d \<in> set ds"
    let ?skip = "visitProperties fuel rest resolvedSchema rootSchema doc config"
    show "missingAt doc (concat (map subnodes (propertyNode # rest))) d"
    proof (cases "propertyPair propertyNode")
      case None
      with eq d "3.IH"(1) show ?thesis
        by (auto intro: missingAt_append)
    next
      case (Some kv)
      obtain keyNode valueNode where kv: "kv = (keyNode, valueNode)" by (cases kv)
      show ?thesis
      proof (cases "keyOf keyNode")
        case None
        with eq d Some kv "3.IH"(2) show ?thesis
          by (auto intro: missingAt_append)
      next
        case key: (Some key)
        show ?thesis
        proof (cases "key = [] \<or> key = ''$schema''")
          case True
          with eq d Some kv key "3.IH"(3) "3.IH"(4) show ?thesis
            by (auto intro: missingAt_append split: if_splits)
        next
          case False
          let ?info = "getPropertySchemaInfo resolvedSchema key"
          from eq Some kv key False obtain ds1 keys' ds2 where
            first: "(if truthy_opt (infoSchema ?info)
                     then visitNodeForDiagnostics fuel valueNode (infoSchema ?info) rootSchema doc config
                     else if showUnknownProperties config \<and> \<not> isKnown ?info
                     then ret [createUnknownPropertyDiagnostic keyNode key doc]
                     else ret []) = Some (Inr ds1)" and
            second: "?skip = Some (Inr (keys', ds2))" and
            dseq: "ds = ds1 @ ds2"
            by (auto simp: Let_def dest!: bindR_Some_Inr)
          from d dseq consider "d \<in> set ds1" | "d \<in> set ds2" by auto
          then show ?thesis
          proof cases
            case 1
            show ?thesis
            proof (cases "truthy_opt (infoSchema ?info)")
              case True
              with first 1 "3.IH"(5) Some kv key False
              have "missingAt doc (subnodes valueNode) d" by auto
              then show ?thesis
                using Some kv
                by (auto simp: missingAt_def dest: subnodes_value)
            next
              case False
              with first 1 show ?thesis
                by (auto simp: missingAt_def unknownProperty_not_missing split: if_splits)
            qed
          next
            case 2
            have "missingAt doc (concat (map subnodes rest)) d"
              using "3.IH"(6) Some kv key False second 2 by auto
            then show ?thesis by (auto intro: missingAt_append)
          qed
        qed
      qed
    qed
  qed
next
  case (4 fuel index items rootSchema doc config)
  then show ?case by simp
next
  case (5 fuel element elements index items rootSchema doc config)
  show ?case
  proof (intro allI impI ballI)
    fix ds d
    assume eq: "visitElements fuel (element # elements) index items rootSchema doc config = Some (Inr ds)"
       and d: "d \<in> set ds"
    from eq obtain ds1 ds2 where
      first: "(if truthy_opt (resolveArrayItemSchema items index)
               then visitNodeForDiagnostics fuel element (resolveArrayItemSchema items index)
                      rootSchema doc config
               else ret []) = Some (Inr ds1)" and
      second: "visitElements fuel elements (index + 1) items rootSchema doc config = Some (Inr ds2)" and
      dseq: "ds = ds1 @ ds2"
      by (auto dest!: bindR_Some_Inr)
    from d dseq consider "d \<in> set ds1" | "d \<in> set ds2" by auto
    then show "missingAt doc (concat (map subnodes (element # elements))) d"
    proof cases
      case 1
      with first "5.IH"(1) have "missingAt doc (subnodes element) d"
        by (auto split: if_splits)
      then show ?thesis by (auto intro: missingAt_append)
    next
      case 2
      have "missingAt doc (concat (map subnodes elements)) d"
        using "5.IH"(2) second 2 by auto
      then show ?thesis by (auto intro: missingAt_append)
    qed
  qed
qed

lemma missingRequiredAt_message:
  "startsWith (message (missingRequiredAt doc off key)) ''Missing required property ''"
  by (simp add: missingRequiredAt_def)

text \<open>C10: a missing-required diagnostic spans one character, from the start offset of
  the object node it was raised for to that offset plus one, whatever the length of the
  node. The constructor builds that range. The object case of the matcher appends, after
  the diagnostics of the properties, one such diagnostic at the offset of the object node
  under visit for each name that the resolved schema of that node requires and that is
  not among the present keys of that node. And every missing-required diagnostic in the
  output of the matcher names a key and lies at the start offset of an object node of the
  visited tree that has no property of that key.\<close>

theorem C10_missing_required_range:
  "drange (createMissingRequiredDiagnostic objectNode key doc) =
     SRange (positionAt doc (noffset objectNode)) (positionAt doc (noffset objectNode + 1))
   \<and> (resolveSchemaNode fuel schemaO rootSchema [] = Some (Inr (Some rs)) \<and> truthy rs \<and>
       isNodeTypeCompatible (Node ObjectType val off len children) rs \<and> isObjectSchema rs \<and>
       requiredSetOf rs = Inr required \<and>
       visitProperties fuel (childrenOrEmpty children) rs rootSchema doc config =
         Some (Inr (keys, dsP))
      \<longrightarrow> keys = presentKeysOf (childrenOrEmpty children) \<and>
          visitNodeForDiagnostics fuel (Node ObjectType val off len children) schemaO rootSchema
            doc config =
          Some (Inr (dsP @
            map (\<lambda>name.
                   \<lparr>drange = SRange (positionAt doc off) (positionAt doc (off + 1)),
                    message = ''Missing required property '' @ dquote @ name @ dquote @ ''.'',
                    severity = Warning\<rparr>)
              (filter (\<lambda>name. name \<noteq> ''$schema'' \<and>
                               name \<notin> set (presentKeysOf (childrenOrEmpty children)))
                 required))))
   \<and> (visitNodeForDiagnostics fuel node schema rootSchema doc config = Some (Inr ds)
        \<longrightarrow> (\<forall>d \<in> set ds. startsWith (message d) ''Missing required property ''
              \<longrightarrow> (\<exists>n \<in> set (subnodes node). \<exists>name. ntype n = ObjectType \<and>
                     name \<notin> set (presentKeysOf (childrenOrEmpty (nchildren n))) \<and>
                     message d = ''Missing required property '' @ dquote @ name @ dquote @ ''.'' \<and>
                     drange d = SRange (positionAt doc (noffset n)) (positionAt doc (noffset n + 1)))))"
proof (intro conjI impI)
  show "drange (createMissingRequiredDiagnostic objectNode key doc) =
     SRange (positionAt doc (noffset objectNode)) (positionAt doc (noffset objectNode + 1))"
    by (simp add: createMissingRequiredDiagnostic_def toRange_def Let_def)
next
  assume a: "resolveSchemaNode fuel schemaO rootSchema [] = Some (Inr (Some rs)) \<and> truthy rs \<and>
       isNodeTypeCompatible (Node ObjectType val off len children) rs \<and> isObjectSchema rs \<and>
       requiredSetOf rs = Inr required \<and>
       visitProperties fuel (childrenOrEmpty children) rs rootSchema doc config =
         Some (Inr (keys, dsP))"
  then show keys: "keys = presentKeysOf (childrenOrEmpty children)"
    by (auto dest: visitProperties_keys)
  from a have "truthy_opt schemaO"
    by (auto dest: resolveSchemaNode_Some_truthy)
  with a show "visitNodeForDiagnostics fuel (Node ObjectType val off len children) schemaO rootSchema
            doc config =
          Some (Inr (dsP @
            map (\<lambda>name.
                   \<lparr>drange = SRange (positionAt doc off) (positionAt doc (off + 1)),
                    message = ''Missing required property '' @ dquote @ name @ dquote @ ''.'',
                    severity = Warning\<rparr>)
              (filter (\<lambda>name. name \<noteq> ''$schema'' \<and>
                               name \<notin> set (presentKeysOf (childrenOrEmpty children)))
                 required)))"
    unfolding keys [symmetric]
    by (simp add: truthy_opt_def lift_def ret_def missingRequired_eq missingRequiredAt_def)
next
  assume "visitNodeForDiagnostics fuel node schema rootSchema doc config = Some (Inr ds)"
  with missing_ranges(1) [of fuel node schema rootSchema doc config]
  have "\<forall>d \<in> set ds. missingAt doc (subnodes node) d" by simp
  then show "\<forall>d \<in> set ds. startsWith (message d) ''Missing required property ''
              \<longrightarrow> (\<exists>n \<in> set (subnodes node). \<exists>name. ntype n = ObjectType \<and>
                     name \<notin> set (presentKeysOf (childrenOrEmpty (nchildren n))) \<and>
                     message d = ''Missing required property '' @ dquote @ name @ dquote @ ''.'' \<and>
                     drange d = SRange (positionAt doc (noffset n)) (positionAt doc (noffset n + 1)))"
    unfolding missingAt_def missingRequiredAt_def by fastforce
qed

theorem C10_missing_required_range_witness:
  "visitNodeForDiagnostics 1 nestedOuter (Some nestedRequired) nestedRequired exampleDocument exampleConfig =
     Some (Inr [\<lparr>drange = SRange (0, 9) (0, 10),
                  message = ''Missing required property '' @ dquote @ ''c'' @ dquote @ ''.'',
                  severity = Warning\<rparr>,
                \<lparr>drange = SRange (0, 2) (0, 3),
                  message = ''Missing required property '' @ dquote @ ''b'' @ dquote @ ''.'',
                  severity = Warning\<rparr>])
   \<and> presentKeysOf (childrenOrEmpty (nchildren nestedOuter)) = [''a'']
   \<and> presentKeysOf (childrenOrEmpty (nchildren nestedInner)) = [''b'']
   \<and> (\<exists>n \<in> set (subnodes nestedOuter). \<exists>name. ntype n = ObjectType \<and>
         name \<notin> set (presentKeysOf (childrenOrEmpty (nchildren n))) \<and>
         ''Missing required property '' @ dquote @ ''b'' @ dquote @ ''.'' =
           ''Missing required property '' @ dquote @ name @ dquote @ ''.'' \<and>
         SRange (0, 2) (0, 3) =
           SRange (positionAt exampleDocument (noffset n)) (positionAt exampleDocument (noffset n + 1)))
   \<and> drange (createMissingRequiredDiagnostic nestedOuter ''b'' exampleDocument) = SRange (0, 2) (0, 3)"
proof -
  let ?c = "\<lparr>drange = SRange (0, 9) (0, 10),
             message = ''Missing required property '' @ dquote @ ''c'' @ dquote @ ''.'',
             severity = Warning\<rparr>"
  let ?b = "\<lparr>drange = SRange (0, 2) (0, 3),
             message = ''Missing required property '' @ dquote @ ''b'' @ dquote @ ''.'',
             severity = Warning\<rparr>"
  let ?children = "Some [Node PropertyType None 4 20 (Some [stringNode ''a'' 4 3, nestedInner])]"
  note T = C10_missing_required_range [where objectNode = nestedOuter and key = "''b''"
      and doc = exampleDocument and fuel = 1 and schemaO = "Some nestedRequired"
      and rootSchema = nestedRequired and rs = nestedRequired and val = None and off = 2
      and len = 30 and children = ?children and required = "[''b'']" and keys = "[''a'']"
      and dsP = "[?c]" and config = exampleConfig and node = nestedOuter
      and schema = "Some nestedRequired" and ds = "[?c, ?b]"]
  have outer: "nestedOuter = Node ObjectType None 2 30 ?children"
    by (simp add: nestedOuter_def)
  have 1: "resolveSchemaNode 1 (Some nestedRequired) nestedRequired [] = Some (Inr (Some nestedRequired)) \<and>
           truthy nestedRequired \<and>
           isNodeTypeCompatible (Node ObjectType None 2 30 ?children) nestedRequired \<and>
           isObjectSchema nestedRequired \<and> requiredSetOf nestedRequired = Inr [''b''] \<and>
           visitProperties 1 (childrenOrEmpty ?children) nestedRequired nestedRequired
             exampleDocument exampleConfig = Some (Inr ([''a''], [?c]))"
    by code_simp
  have "[''a''] = presentKeysOf (childrenOrEmpty ?children)"
    using T 1 by blast
  then have 2: "presentKeysOf (childrenOrEmpty ?children) = [''a'']" ..
  have "visitNodeForDiagnostics 1 (Node ObjectType None 2 30 ?children) (Some nestedRequired)
          nestedRequired exampleDocument exampleConfig =
        Some (Inr ([?c] @
            map (\<lambda>name.
                   \<lparr>drange = SRange (positionAt exampleDocument 2) (positionAt exampleDocument (2 + 1)),
                    message = ''Missing required property '' @ dquote @ name @ dquote @ ''.'',
                    severity = Warning\<rparr>)
              (filter (\<lambda>name. name \<noteq> ''$schema'' \<and>
                               name \<notin> set (presentKeysOf (childrenOrEmpty ?children)))
                 [''b''])))"
    using T 1 by blast
  then have 3: "visitNodeForDiagnostics 1 nestedOuter (Some nestedRequired) nestedRequired
                  exampleDocument exampleConfig = Some (Inr [?c, ?b])"
    unfolding outer 2 by (simp add: exampleDocument_def)
  have 4: "startsWith (message ?b) ''Missing required property ''"
    by simp
  have 5: "\<exists>n \<in> set (subnodes nestedOuter). \<exists>name. ntype n = ObjectType \<and>
         name \<notin> set (presentKeysOf (childrenOrEmpty (nchildren n))) \<and>
         ''Missing required property '' @ dquote @ ''b'' @ dquote @ ''.'' =
           ''Missing required property '' @ dquote @ name @ dquote @ ''.'' \<and>
         SRange (0, 2) (0, 3) =
           SRange (positionAt exampleDocument (noffset n)) (positionAt exampleDocument (noffset n + 1))"
  proof -
    from T 3 have "\<forall>d \<in> set [?c, ?b]. startsWith (message d) ''Missing required property ''
              \<longrightarrow> (\<exists>n \<in> set (subnodes nestedOuter). \<exists>name. ntype n = ObjectType \<and>
                     name \<notin> set (presentKeysOf (childrenOrEmpty (nchildren n))) \<and>
                     message d = ''Missing required property '' @ dquote @ name @ dquote @ ''.'' \<and>
                     drange d = SRange (positionAt exampleDocument (noffset n))
                                  (positionAt exampleDocument (noffset n + 1)))"
      by blast
    then show ?thesis using 4 by simp
  qed
  have 6: "presentKeysOf (childrenOrEmpty (nchildren nestedInner)) = [''b'']"
    by code_simp
  have 7: "drange (createMissingRequiredDiagnostic nestedOuter ''b'' exampleDocument) = SRange (0, 2) (0, 3)"
    using T by (simp add: nestedOuter_def exampleDocument_def)
  have 8: "presentKeysOf (childrenOrEmpty (nchildren nestedOuter)) = [''a'']"
    using 2 by (simp add: outer)
  show ?thesis
    by (intro conjI) (rule 3, rule 8, rule 6, rule 5, rule 7)
qed

section \<open>The allOf merge\<close>

lemma set_foldl_setAdd: "set (foldl setAdd acc xs) = set acc \<union> set xs"
  by (induction xs arbitrary: acc) (auto simp: setAdd_def)

lemma isPrimitive_foldl_setAdd:
  "list_all isPrimitive acc \<Longrightarrow> list_all isPrimitive xs \<Longrightarrow> list_all isPrimitive (foldl setAdd acc xs)"
  by (auto simp: list_all_iff set_foldl_setAdd)

lemma truthy_opt_the: "truthy_opt v \<Longrightarrow> v = Some (the v)"
  by (cases v) (auto simp: truthy_opt_def)

lemma map_of_update_other:
  "k \<noteq> k' \<Longrightarrow> map_of (AList.update k v al) k' = map_of al k'"
  by (simp add: update_conv')

lemma map_of_update_same: "map_of (AList.update k v al) k = Some v"
  by (simp add: update_conv')

lemma mergeType_reads:
  "map_of (mergeType merged schema) k =
     (if k = ''type'' \<and> truthy_opt (getProp schema ''type'') then getProp schema ''type''
      else map_of merged k)"
  by (auto simp: mergeType_def update_conv' dest: truthy_opt_the)

lemma mergeProperties_reads:
  "k \<noteq> ''properties'' \<Longrightarrow> map_of (mergeProperties merged schema) k = map_of merged k"
  by (auto simp: mergeProperties_def update_conv')

lemma mergeItems_reads:
  "map_of (mergeItems merged schema) k =
     (if k = ''items'' \<and> truthy_opt (getProp schema ''items'') then getProp schema ''items''
      else map_of merged k)"
  by (auto simp: mergeItems_def update_conv' dest: truthy_opt_the)

lemma mergeAdditionalProperties_reads:
  "map_of (mergeAdditionalProperties merged schema) k =
     (if k = ''additionalProperties'' \<and> getProp schema ''additionalProperties'' \<noteq> None
      then getProp schema ''additionalProperties''
      else map_of merged k)"
  by (auto simp: mergeAdditionalProperties_def update_conv' split: option.splits)

lemma mergeRequired_other:
  "mergeRequired merged schema = Inr merged' \<Longrightarrow> k \<noteq> ''required'' \<Longrightarrow>
   map_of merged' k = map_of merged k"
  by (auto simp: mergeRequired_def update_conv' split: if_splits sum.splits)

lemma mergeRequired_required:
  assumes "mergeRequired merged schema = Inr merged'" and "requiredOk merged" and "truthy schema"
  shows "requiredOk merged' \<and>
         set (arrayOrEmpty (map_of merged' ''required'')) =
           set (arrayOrEmpty (map_of merged ''required'')) \<union> set (requiredEntries schema) \<and>
         (map_of merged' ''required'' = None) =
           (map_of merged ''required'' = None \<and> \<not> specifiesRequired schema)"
proof (cases "truthy_opt (getProp schema ''required'')")
  case False
  with assms show ?thesis
    by (simp add: mergeRequired_def requiredEntries_def specifiesRequired_def)
next
  case req: True
  with assms(1) obtain ys rs where ys: "iterate (the (getProp schema ''required'')) = Inr ys"
    and rs: "arrayFromSet (arrayOrEmpty (map_of merged ''required'') @ ys) = Inr rs"
    and eq: "merged' = AList.update ''required'' (JArr rs) merged"
    by (auto simp: mergeRequired_def split: sum.splits)
  from rs have prim: "list_all isPrimitive (arrayOrEmpty (map_of merged ''required'') @ ys)"
    and rsdef: "rs = foldl setAdd [] (arrayOrEmpty (map_of merged ''required'') @ ys)"
    by (auto simp: arrayFromSet_def split: if_splits)
  have r: "map_of merged' ''required'' = Some (JArr rs)"
    using eq by (simp add: map_of_update_same)
  have "list_all isPrimitive rs"
    unfolding rsdef using prim by (intro isPrimitive_foldl_setAdd) simp_all
  moreover have "set rs = set (arrayOrEmpty (map_of merged ''required'')) \<union> set ys"
    unfolding rsdef by (simp add: set_foldl_setAdd)
  moreover have "requiredEntries schema = ys"
    using assms(3) req ys by (simp add: requiredEntries_def)
  ultimately show ?thesis
    using r assms(3) req by (simp add: requiredOk_def arrayOrEmpty_def specifiesRequired_def)
qed

lemma mergeStep_fields:
  assumes step: "mergeStep merged schema = Inr merged'"
  shows "map_of merged' ''type'' =
           (if specifiesType schema then getProp schema ''type'' else map_of merged ''type'')"
    and "map_of merged' ''items'' =
           (if specifiesItems schema then getProp schema ''items'' else map_of merged ''items'')"
    and "map_of merged' ''additionalProperties'' =
           (if specifiesAdditional schema then getProp schema ''additionalProperties''
            else map_of merged ''additionalProperties'')"
proof -
  have "map_of merged' ''type'' =
           (if specifiesType schema then getProp schema ''type'' else map_of merged ''type'') \<and>
        map_of merged' ''items'' =
           (if specifiesItems schema then getProp schema ''items'' else map_of merged ''items'') \<and>
        map_of merged' ''additionalProperties'' =
           (if specifiesAdditional schema then getProp schema ''additionalProperties''
            else map_of merged ''additionalProperties'')"
  proof (cases "truthy schema")
    case False
    with step show ?thesis
      by (simp add: mergeStep_def specifiesType_def specifiesItems_def specifiesAdditional_def)
  next
    case True
    let ?m2 = "mergeProperties (mergeType merged schema) schema"
    from step True obtain m3 where m3: "mergeRequired ?m2 schema = Inr m3"
      and fin: "merged' = mergeAdditionalProperties (mergeItems m3 schema) schema"
      by (auto simp: mergeStep_def split: sum.splits)
    have "map_of m3 k = map_of ?m2 k" if "k \<noteq> ''required''" for k
      using mergeRequired_other [OF m3 that] .
    then show ?thesis
      using True unfolding fin
      by (simp add: mergeAdditionalProperties_reads mergeItems_reads mergeProperties_reads
            mergeType_reads specifiesType_def specifiesItems_def specifiesAdditional_def)
  qed
  then show "map_of merged' ''type'' =
           (if specifiesType schema then getProp schema ''type'' else map_of merged ''type'')"
    and "map_of merged' ''items'' =
           (if specifiesItems schema then getProp schema ''items'' else map_of merged ''items'')"
    and "map_of merged' ''additionalProperties'' =
           (if specifiesAdditional schema then getProp schema ''additionalProperties''
            else map_of merged ''additionalProperties'')"
    by simp_all
qed

lemma mergeStep_required:
  assumes step: "mergeStep merged schema = Inr merged'" and ok: "requiredOk merged"
  shows "requiredOk merged' \<and>
         set (arrayOrEmpty (map_of merged' ''required'')) =
           set (arrayOrEmpty (map_of merged ''required'')) \<union> set (requiredEntries schema) \<and>
         (map_of merged' ''required'' = None) =
           (map_of merged ''required'' = None \<and> \<not> specifiesRequired schema)"
proof (cases "truthy schema")
  case False
  with step ok show ?thesis
    by (simp add: mergeStep_def requiredEntries_def specifiesRequired_def)
next
  case True
  let ?m2 = "mergeProperties (mergeType merged schema) schema"
  from step True obtain m3 where m3: "mergeRequired ?m2 schema = Inr m3"
    and fin: "merged' = mergeAdditionalProperties (mergeItems m3 schema) schema"
    by (auto simp: mergeStep_def split: sum.splits)
  have m2: "map_of ?m2 ''required'' = map_of merged ''required''"
    by (simp add: mergeProperties_reads mergeType_reads)
  then have ok2: "requiredOk ?m2" using ok by (simp add: requiredOk_def)
  have "map_of merged' ''required'' = map_of m3 ''required''"
    unfolding fin by (simp add: mergeAdditionalProperties_reads mergeItems_reads)
  with mergeRequired_required [OF m3 ok2 True] m2 show ?thesis
    by (simp add: requiredOk_def)
qed

lemma mergeLoop_required:
  "mergeLoop merged xs = Inr m \<Longrightarrow> requiredOk merged \<Longrightarrow>
   requiredOk m \<and>
   set (arrayOrEmpty (map_of m ''required'')) =
     set (arrayOrEmpty (map_of merged ''required'')) \<union> (\<Union>x\<in>set xs. set (requiredEntries x)) \<and>
   (map_of m ''required'' = None) =
     (map_of merged ''required'' = None \<and> (\<forall>x\<in>set xs. \<not> specifiesRequired x))"
proof (induction xs arbitrary: merged)
  case Nil
  then show ?case by simp
next
  case (Cons x xs)
  from Cons.prems(1) obtain m1 where m1: "mergeStep merged x = Inr m1"
    and rest: "mergeLoop m1 xs = Inr m"
    by (auto split: sum.splits)
  from mergeStep_required [OF m1 Cons.prems(2)] Cons.IH [OF rest]
  show ?case by auto
qed

lemma find_snoc:
  "find P (xs @ [x]) = (case find P xs of None \<Rightarrow> (if P x then Some x else None) | Some y \<Rightarrow> Some y)"
  by (induction xs) auto

lemma mergeLoop_fields:
  "mergeLoop merged xs = Inr m \<Longrightarrow>
   map_of m ''type'' =
     (case find specifiesType (rev xs) of None \<Rightarrow> map_of merged ''type'' | Some x \<Rightarrow> getProp x ''type'') \<and>
   map_of m ''items'' =
     (case find specifiesItems (rev xs) of None \<Rightarrow> map_of merged ''items'' | Some x \<Rightarrow> getProp x ''items'') \<and>
   map_of m ''additionalProperties'' =
     (case find specifiesAdditional (rev xs) of
        None \<Rightarrow> map_of merged ''additionalProperties''
      | Some x \<Rightarrow> getProp x ''additionalProperties'')"
proof (induction xs arbitrary: merged)
  case Nil
  then show ?case by simp
next
  case (Cons x xs)
  from Cons.prems obtain m1 where m1: "mergeStep merged x = Inr m1"
    and rest: "mergeLoop m1 xs = Inr m"
    by (auto split: sum.splits)
  from Cons.IH [OF rest] mergeStep_fields [OF m1]
  show ?case by (auto simp: find_snoc split: option.splits)
qed

lemma mergeStep_fails:
  "requiredOk merged \<Longrightarrow> isl (mergeStep merged x) = isl (mergeStep [] x)"
proof -
  assume ok: "requiredOk merged"
  have prim: "list_all isPrimitive (arrayOrEmpty (map_of merged ''required''))"
    using ok by (auto simp: requiredOk_def arrayOrEmpty_def split: option.splits json.splits)
  have r: "map_of (mergeProperties (mergeType ms x) x) ''required'' = map_of ms ''required''" for ms
    by (simp add: mergeProperties_reads mergeType_reads)
  show ?thesis
    using prim
    by (auto simp: mergeStep_def mergeRequired_def r arrayFromSet_def arrayOrEmpty_def
          split: sum.splits if_splits)
qed

lemma mergeLoop_fails:
  "requiredOk merged \<Longrightarrow> isl (mergeLoop merged xs) = (\<exists>x\<in>set xs. isl (mergeStep [] x))"
proof (induction xs arbitrary: merged)
  case Nil
  then show ?case by simp
next
  case (Cons x xs)
  show ?case
  proof (cases "mergeStep merged x")
    case (Inl e)
    with mergeStep_fails [OF Cons.prems, of x] show ?thesis by auto
  next
    case (Inr m1)
    with mergeStep_required [OF Inr Cons.prems] Cons.IH [of m1]
         mergeStep_fails [OF Cons.prems, of x]
    show ?thesis by auto
  qed
qed

lemma requiredOk_Nil: "requiredOk []"
  by (simp add: requiredOk_def)

lemma mergeSchemas_Some:
  "mergeSchemas xs = Inr (Some m) \<Longrightarrow> \<exists>merged. m = JObj merged \<and> mergeLoop [] xs = Inr merged"
  by (auto simp: mergeSchemas_def split: if_splits sum.splits)

lemma mergeSchemas_isl: "isl (mergeSchemas xs) = (\<exists>x\<in>set xs. isl (mergeStep [] x))"
  using mergeLoop_fails [OF requiredOk_Nil, of xs]
  by (cases "mergeLoop [] xs") (auto simp: mergeSchemas_def)

lemma mergeSchemas_required:
  assumes "mergeSchemas xs = Inr (Some m)"
  shows "requiredOf m = (\<Union>x\<in>set xs. set (requiredEntries x))"
    and "(getProp m ''required'' = None) = (\<forall>x\<in>set xs. \<not> specifiesRequired x)"
proof -
  from mergeSchemas_Some [OF assms] obtain merged where
    m: "m = JObj merged" and loop: "mergeLoop [] xs = Inr merged" by blast
  from mergeLoop_required [OF loop requiredOk_Nil]
  show "requiredOf m = (\<Union>x\<in>set xs. set (requiredEntries x))"
    and "(getProp m ''required'' = None) = (\<forall>x\<in>set xs. \<not> specifiesRequired x)"
    by (simp_all add: m requiredOf_def arrayOrEmpty_def)
qed

lemma mergeStep_typed:
  assumes "getProp x ''required'' = None \<or> (\<exists>names. getProp x ''required'' = Some (JArr (map JStr names)))"
  shows "\<not> isl (mergeStep [] x)"
proof -
  have r: "map_of (mergeProperties (mergeType [] x) x) ''required'' = None"
    by (simp add: mergeProperties_reads mergeType_reads)
  have prim: "list_all isPrimitive (map JStr names)" for names
    by (induction names) simp_all
  from assms show ?thesis
    by (auto simp: mergeStep_def mergeRequired_def r arrayFromSet_def arrayOrEmpty_def
          truthy_opt_def prim split: sum.splits if_splits)
qed

lemma mergeSchemas_total:
  assumes "xs \<noteq> []"
    and "\<forall>x \<in> set xs. getProp x ''required'' = None \<or>
           (\<exists>names. getProp x ''required'' = Some (JArr (map JStr names)))"
  shows "\<exists>merged. mergeSchemas xs = Inr (Some (JObj merged))"
proof -
  have "\<not> isl (mergeStep [] x)" if "x \<in> set xs" for x
    using assms(2) that by (intro mergeStep_typed) blast
  then have "\<not> isl (mergeSchemas xs)"
    by (auto simp: mergeSchemas_isl)
  with assms(1) show ?thesis
    by (auto simp: mergeSchemas_def split: sum.splits)
qed

text \<open>C4: the merge is commutative in \<^verbatim>\<open>required\<close> and last-wins in \<^verbatim>\<open>type\<close>, \<^verbatim>\<open>items\<close>
  and \<^verbatim>\<open>additionalProperties\<close>. The merge of no branch is absent; the merge of at least one
  branch is a node whenever the \<^verbatim>\<open>required\<close> of every branch is absent or an array of
  strings. For two lists \<open>xs\<close> and \<open>ys\<close> of the same branches (in any
  order) the merge fails for both or for neither, and the merged \<^verbatim>\<open>required\<close> holds the
  same names, the union of the names of all branches, and is present for both or for
  neither. The other three fields hold what the last branch that specifies them gives;
  merging \<^verbatim>\<open>[{"type": "string"}, {"type": "number"}]\<close> yields type \<^verbatim>\<open>number\<close>, the reverse
  order \<^verbatim>\<open>string\<close>, and likewise for \<^verbatim>\<open>items\<close> and \<^verbatim>\<open>additionalProperties\<close>.\<close>

theorem C4_merge_order:
  "mergeSchemas [] = Inr None
   \<and> (zs \<noteq> [] \<and>
       (\<forall>z \<in> set zs. getProp z ''required'' = None \<or>
          (\<exists>names. getProp z ''required'' = Some (JArr (map JStr names))))
      \<longrightarrow> (\<exists>merged. mergeSchemas zs = Inr (Some (JObj merged))))
   \<and> (set xs = set ys \<longrightarrow> isl (mergeSchemas xs) = isl (mergeSchemas ys))
   \<and> (mergeSchemas xs = Inr (Some m)
        \<longrightarrow> requiredOf m = (\<Union>x\<in>set xs. set (requiredEntries x)))
   \<and> (set xs = set ys \<and> mergeSchemas xs = Inr (Some m) \<and> mergeSchemas ys = Inr (Some m')
        \<longrightarrow> requiredOf m = requiredOf m' \<and>
            (getProp m ''required'' = None) = (getProp m' ''required'' = None))
   \<and> (mergeSchemas xs = Inr (Some m)
        \<longrightarrow> getProp m ''type'' =
              (case find specifiesType (rev xs) of None \<Rightarrow> None | Some x \<Rightarrow> getProp x ''type'') \<and>
            getProp m ''items'' =
              (case find specifiesItems (rev xs) of None \<Rightarrow> None | Some x \<Rightarrow> getProp x ''items'') \<and>
            getProp m ''additionalProperties'' =
              (case find specifiesAdditional (rev xs) of
                 None \<Rightarrow> None
               | Some x \<Rightarrow> getProp x ''additionalProperties''))
   \<and> mergeSchemas [typeString, typeNumber] = Inr (Some typeNumber)
   \<and> mergeSchemas [typeNumber, typeString] = Inr (Some typeString)
   \<and> mergeSchemas [itemsString, itemsNumber] = Inr (Some itemsNumber)
   \<and> mergeSchemas [itemsNumber, itemsString] = Inr (Some itemsString)
   \<and> mergeSchemas [closedObject, openObject] = Inr (Some openObject)
   \<and> mergeSchemas [openObject, closedObject] = Inr (Some closedObject)"
proof (intro conjI impI)
  show "mergeSchemas [] = Inr None"
    by (simp add: mergeSchemas_def)
next
  assume "zs \<noteq> [] \<and>
       (\<forall>z \<in> set zs. getProp z ''required'' = None \<or>
          (\<exists>names. getProp z ''required'' = Some (JArr (map JStr names))))"
  then show "\<exists>merged. mergeSchemas zs = Inr (Some (JObj merged))"
    by (intro mergeSchemas_total) simp_all
next
  assume "set xs = set ys"
  then show "isl (mergeSchemas xs) = isl (mergeSchemas ys)"
    by (simp add: mergeSchemas_isl)
next
  assume "mergeSchemas xs = Inr (Some m)"
  then show "requiredOf m = (\<Union>x\<in>set xs. set (requiredEntries x))"
    by (rule mergeSchemas_required)
next
  assume a: "set xs = set ys \<and> mergeSchemas xs = Inr (Some m) \<and> mergeSchemas ys = Inr (Some m')"
  with mergeSchemas_required [of xs m] mergeSchemas_required [of ys m']
  show "requiredOf m = requiredOf m'"
    and "(getProp m ''required'' = None) = (getProp m' ''required'' = None)"
    by simp_all
next
  assume a: "mergeSchemas xs = Inr (Some m)"
  from mergeSchemas_Some [OF a] obtain merged where
    m: "m = JObj merged" and loop: "mergeLoop [] xs = Inr merged" by blast
  from mergeLoop_fields [OF loop]
  show "getProp m ''type'' =
          (case find specifiesType (rev xs) of None \<Rightarrow> None | Some x \<Rightarrow> getProp x ''type'')"
    and "getProp m ''items'' =
          (case find specifiesItems (rev xs) of None \<Rightarrow> None | Some x \<Rightarrow> getProp x ''items'')"
    and "getProp m ''additionalProperties'' =
          (case find specifiesAdditional (rev xs) of
             None \<Rightarrow> None
           | Some x \<Rightarrow> getProp x ''additionalProperties'')"
    by (simp_all add: m cong: option.case_cong)
next
  show "mergeSchemas [typeString, typeNumber] = Inr (Some typeNumber)" by code_simp
  show "mergeSchemas [typeNumber, typeString] = Inr (Some typeString)" by code_simp
  show "mergeSchemas [itemsString, itemsNumber] = Inr (Some itemsNumber)" by code_simp
  show "mergeSchemas [itemsNumber, itemsString] = Inr (Some itemsString)" by code_simp
  show "mergeSchemas [closedObject, openObject] = Inr (Some openObject)" by code_simp
  show "mergeSchemas [openObject, closedObject] = Inr (Some closedObject)" by code_simp
qed

theorem C4_merge_order_witness:
  "mergeSchemas [requiresAB, typeString, requiresBC] =
     Inr (Some (JObj [(''required'', JArr [JStr ''a'', JStr ''b'', JStr ''c'']),
                      (''type'', JStr ''string'')]))
   \<and> mergeSchemas [requiresBC, typeString, requiresAB] =
     Inr (Some (JObj [(''required'', JArr [JStr ''b'', JStr ''c'', JStr ''a'']),
                      (''type'', JStr ''string'')]))
   \<and> requiredOf (JObj [(''required'', JArr [JStr ''a'', JStr ''b'', JStr ''c'']),
                       (''type'', JStr ''string'')])
     = requiredOf (JObj [(''required'', JArr [JStr ''b'', JStr ''c'', JStr ''a'']),
                         (''type'', JStr ''string'')])
   \<and> requiredOf (JObj [(''required'', JArr [JStr ''a'', JStr ''b'', JStr ''c'']),
                       (''type'', JStr ''string'')])
     = {JStr ''a'', JStr ''b'', JStr ''c''}
   \<and> (\<exists>merged. mergeSchemas [requiresAB, typeString] = Inr (Some (JObj merged)))"
proof -
  let ?m = "JObj [(''required'', JArr [JStr ''a'', JStr ''b'', JStr ''c'']), (''type'', JStr ''string'')]"
  let ?m' = "JObj [(''required'', JArr [JStr ''b'', JStr ''c'', JStr ''a'']), (''type'', JStr ''string'')]"
  have 1: "mergeSchemas [requiresAB, typeString, requiresBC] = Inr (Some ?m)" by code_simp
  have 2: "mergeSchemas [requiresBC, typeString, requiresAB] = Inr (Some ?m')" by code_simp
  have 3: "set [requiresAB, typeString, requiresBC] = set [requiresBC, typeString, requiresAB]"
    by auto
  have 4: "(\<Union>x\<in>set [requiresAB, typeString, requiresBC]. set (requiredEntries x)) =
           {JStr ''a'', JStr ''b'', JStr ''c''}"
  proof -
    have "requiredEntries requiresAB = [JStr ''a'', JStr ''b'']" by code_simp
    moreover have "requiredEntries requiresBC = [JStr ''b'', JStr ''c'']" by code_simp
    moreover have "requiredEntries typeString = []" by code_simp
    ultimately show ?thesis by auto
  qed
  note T = C4_merge_order [where xs = "[requiresAB, typeString, requiresBC]"
        and ys = "[requiresBC, typeString, requiresAB]" and m = ?m and m' = ?m'
        and zs = "[requiresAB, typeString]"]
  have 5: "getProp requiresAB ''required'' = Some (JArr (map JStr [''a'', ''b'']))"
    "getProp typeString ''required'' = None"
    by (simp_all add: requiresAB_def typeString_def)
  have 6: "\<forall>z \<in> set [requiresAB, typeString]. getProp z ''required'' = None \<or>
          (\<exists>names. getProp z ''required'' = Some (JArr (map JStr names)))"
    using 5 by (auto simp del: list.map)
  have c: "\<exists>merged. mergeSchemas [requiresAB, typeString] = Inr (Some (JObj merged))"
    using T 6 by blast
  have a: "requiredOf ?m = (\<Union>x\<in>set [requiresAB, typeString, requiresBC]. set (requiredEntries x))"
    using T 1 by blast
  have b: "requiredOf ?m = requiredOf ?m'"
    using T 1 2 3 by blast
  show ?thesis
    by (intro conjI) (rule 1, rule 2, rule b, rule a [unfolded 4], rule c)
qed

section \<open>oneOf and anyOf\<close>

lemma hasEntries_JArr [simp]: "hasEntries (Some (JArr xs)) = Inr (xs \<noteq> [])"
  by (simp add: hasEntries_def)

lemma index_of_key_0 [simp]: "index_of_key ''0'' = Some 0"
  by (simp add: index_of_key_def is_digit_def digit_val_def)

lemma index_of_key_names [simp]:
  "index_of_key ''$ref'' = None"
  "index_of_key ''allOf'' = None"
  "index_of_key ''oneOf'' = None"
  "index_of_key ''anyOf'' = None"
  by (simp_all add: index_of_key_def is_digit_def)

lemma getProp_Some_JObj:
  "getProp s k = Some v \<Longrightarrow> index_of_key k = None \<Longrightarrow> k \<noteq> ''length'' \<Longrightarrow>
   \<forall>p. inherited p k = None \<Longrightarrow> \<exists>kvs. s = JObj kvs"
  by (cases "(s, k)" rule: getProp.cases) (auto simp: inherited_def split: if_splits)

lemma getProp_first [simp]: "getProp (JArr (x # xs)) ''0'' = Some x"
  by simp

text \<open>C3: a node whose \<^verbatim>\<open>oneOf\<close> is reached (no \<^verbatim>\<open>$ref\<close>, no non-empty \<^verbatim>\<open>allOf\<close>) and
  is a non-empty array resolves to whatever its first entry resolves to, also when that
  is absent; the same holds for \<^verbatim>\<open>anyOf\<close> when there is no non-empty \<^verbatim>\<open>oneOf\<close>. The
  entries after the first never matter: replacing them leaves the result unchanged, for
  any node. A number node matched against
  \<^verbatim>\<open>{"oneOf": [{"type": "string"}, {"type": "number"}]}\<close> gets a type mismatch naming
  \<^verbatim>\<open>string\<close>, although it is compatible with the second entry.\<close>

theorem C3_first_entry_only:
  "(refOf s = None \<and> hasEntries (getProp s ''allOf'') = Inr False \<and>
    getProp s ''oneOf'' = Some (JArr (first # others))
      \<longrightarrow> resolveSchemaNode (Suc fuel) (Some s) rootSchema seen =
          resolveSchemaNode fuel (Some first) rootSchema seen)
   \<and> (refOf s' = None \<and> hasEntries (getProp s' ''allOf'') = Inr False \<and>
       hasEntries (getProp s' ''oneOf'') = Inr False \<and>
       getProp s' ''anyOf'' = Some (JArr (first' # others'))
      \<longrightarrow> resolveSchemaNode (Suc fuel) (Some s') rootSchema seen =
          resolveSchemaNode fuel (Some first') rootSchema seen)
   \<and> resolveSchemaNode fuel (Some (JObj (AList.update ''oneOf'' (JArr (e # later)) kvs))) rootSchema seen =
     resolveSchemaNode fuel (Some (JObj (AList.update ''oneOf'' (JArr [e]) kvs))) rootSchema seen
   \<and> resolveSchemaNode fuel (Some (JObj (AList.update ''anyOf'' (JArr (e # later)) kvs))) rootSchema seen =
     resolveSchemaNode fuel (Some (JObj (AList.update ''anyOf'' (JArr [e]) kvs))) rootSchema seen
   \<and> visitNodeForDiagnostics 2 (numberNode 1) (Some stringOrNumberOneOf) stringOrNumberOneOf
         exampleDocument exampleConfig =
       Some (Inr [\<lparr>drange = SRange (0, 0) (0, 1),
                     message = ''Type mismatch: expected string.'', severity = Warning\<rparr>])
   \<and> visitNodeForDiagnostics 2 (numberNode 1) (Some stringOrNumberAnyOf) stringOrNumberAnyOf
         exampleDocument exampleConfig =
       Some (Inr [\<lparr>drange = SRange (0, 0) (0, 1),
                     message = ''Type mismatch: expected string.'', severity = Warning\<rparr>])
   \<and> isNodeTypeCompatible (numberNode 1) typeNumber"
proof (intro conjI impI)
  assume "refOf s = None \<and> hasEntries (getProp s ''allOf'') = Inr False \<and>
    getProp s ''oneOf'' = Some (JArr (first # others))"
  moreover from this obtain kvs where "s = JObj kvs"
    by (auto dest: getProp_Some_JObj)
  ultimately show "resolveSchemaNode (Suc fuel) (Some s) rootSchema seen =
          resolveSchemaNode fuel (Some first) rootSchema seen"
    by auto
next
  assume "refOf s' = None \<and> hasEntries (getProp s' ''allOf'') = Inr False \<and>
       hasEntries (getProp s' ''oneOf'') = Inr False \<and>
       getProp s' ''anyOf'' = Some (JArr (first' # others'))"
  moreover from this obtain kvs where "s' = JObj kvs"
    by (auto dest: getProp_Some_JObj)
  ultimately show "resolveSchemaNode (Suc fuel) (Some s') rootSchema seen =
          resolveSchemaNode fuel (Some first') rootSchema seen"
    by auto
next
  show "resolveSchemaNode fuel (Some (JObj (AList.update ''oneOf'' (JArr (e # later)) kvs))) rootSchema seen =
     resolveSchemaNode fuel (Some (JObj (AList.update ''oneOf'' (JArr [e]) kvs))) rootSchema seen"
    by (cases fuel)
       (simp_all add: refOf_def update_conv' cong: option.case_cong sum.case_cong bool.case_cong)
next
  show "resolveSchemaNode fuel (Some (JObj (AList.update ''anyOf'' (JArr (e # later)) kvs))) rootSchema seen =
     resolveSchemaNode fuel (Some (JObj (AList.update ''anyOf'' (JArr [e]) kvs))) rootSchema seen"
    by (cases fuel)
       (simp_all add: refOf_def update_conv' cong: option.case_cong sum.case_cong bool.case_cong)
next
  show "visitNodeForDiagnostics 2 (numberNode 1) (Some stringOrNumberOneOf) stringOrNumberOneOf
         exampleDocument exampleConfig =
       Some (Inr [\<lparr>drange = SRange (0, 0) (0, 1),
                     message = ''Type mismatch: expected string.'', severity = Warning\<rparr>])"
    by code_simp
next
  show "visitNodeForDiagnostics 2 (numberNode 1) (Some stringOrNumberAnyOf) stringOrNumberAnyOf
         exampleDocument exampleConfig =
       Some (Inr [\<lparr>drange = SRange (0, 0) (0, 1),
                     message = ''Type mismatch: expected string.'', severity = Warning\<rparr>])"
    by code_simp
next
  show "isNodeTypeCompatible (numberNode 1) typeNumber" by code_simp
qed

theorem C3_first_entry_only_witness:
  "resolveSchemaNode 2 (Some remoteFirst) remoteFirst [] = Some (Inr None)
   \<and> resolveSchemaNode 2 (Some stringOrNumberAnyOf) stringOrNumberAnyOf [] = Some (Inr (Some typeString))"
proof -
  have 1: "refOf remoteFirst = None \<and> hasEntries (getProp remoteFirst ''allOf'') = Inr False \<and>
    getProp remoteFirst ''oneOf'' =
      Some (JArr (JObj [(''$ref'', JStr ''http://example.com/s.json'')] # [typeNumber]))"
    by code_simp
  have 2: "refOf stringOrNumberAnyOf = None \<and> hasEntries (getProp stringOrNumberAnyOf ''allOf'') = Inr False \<and>
       hasEntries (getProp stringOrNumberAnyOf ''oneOf'') = Inr False \<and>
       getProp stringOrNumberAnyOf ''anyOf'' = Some (JArr (typeString # [typeNumber]))"
    by code_simp
  have 3: "resolveSchemaNode 1 (Some (JObj [(''$ref'', JStr ''http://example.com/s.json'')])) remoteFirst []
             = Some (Inr None)"
    by code_simp
  have 4: "resolveSchemaNode 1 (Some typeString) stringOrNumberAnyOf [] = Some (Inr (Some typeString))"
    by code_simp
  have 5: "(2::nat) = Suc 1" by simp
  note T = C3_first_entry_only [where s = remoteFirst
      and first = "JObj [(''$ref'', JStr ''http://example.com/s.json'')]" and others = "[typeNumber]"
      and fuel = 1 and rootSchema = remoteFirst and seen = "[]"]
  note U = C3_first_entry_only [where s' = stringOrNumberAnyOf
      and first' = typeString and others' = "[typeNumber]"
      and fuel = 1 and rootSchema = stringOrNumberAnyOf and seen = "[]"]
  have a: "resolveSchemaNode (Suc 1) (Some remoteFirst) remoteFirst [] = Some (Inr None)"
    using T 1 3 by simp
  have b: "resolveSchemaNode (Suc 1) (Some stringOrNumberAnyOf) stringOrNumberAnyOf [] =
             Some (Inr (Some typeString))"
    using U 2 4 by simp
  show ?thesis using a b unfolding 5 by simp
qed

section \<open>Unresolvable schemas\<close>

lemma collect_absent:
  "\<forall>r \<in> set rs. \<exists>v. r = Some (Inr v) \<and> \<not> truthy_opt v \<Longrightarrow>
   \<exists>vs. collect rs = Some (Inr vs) \<and> filterBoolean vs = []"
proof (induction rs)
  case Nil
  show ?case by (simp add: filterBoolean_def)
next
  case (Cons r rs)
  then obtain v vs where "r = Some (Inr v)" "\<not> truthy_opt v"
    "collect rs = Some (Inr vs)" "filterBoolean vs = []"
    by auto
  then show ?case by (simp add: filterBoolean_def)
qed

lemma refOf_truthy: "refOf s = Some r \<Longrightarrow> truthy s"
  by (cases s) (auto simp: refOf_def index_of_key_def is_digit_def split: if_splits option.splits)

lemma resolvePointer_hash: "resolvePointer rootSchema r = Some v \<Longrightarrow> startsWith r ''#''"
  by (cases r) (auto simp: resolvePointer_def startsWith_def split: if_splits)

text \<open>C9, as stated, fails for a pointer whose path is not among the properties of the root
  schema but names an inherited member. The walk tests \<^verbatim>\<open>part in record\<close>, which holds for
  \<^verbatim>\<open>toString\<close> on every object: against a root schema with an empty \<^verbatim>\<open>definitions\<close> the
  reference \<^verbatim>\<open>#/definitions/toString\<close> resolves to the function
  \<^verbatim>\<open>Object.prototype.toString\<close>, not to absent, and an \<^verbatim>\<open>allOf\<close> of that reference alone merges
  to the empty schema object, not to absent.\<close>

theorem C9_counterexample:
  "getProp emptyRoot ''definitions'' = Some (JObj [])
   \<and> map_of ([] :: (string \<times> json) list) ''toString'' = None
   \<and> resolvePointer emptyRoot ''#/definitions/toString'' =
       Some (JBuiltin (BuiltinFunction ObjectPrototype ''toString''))
   \<and> resolveSchemaNode 2 (Some toStringRef) emptyRoot [] =
       Some (Inr (Some (JBuiltin (BuiltinFunction ObjectPrototype ''toString''))))
   \<and> resolveSchemaNode 3 (Some allInherited) emptyRoot [] = Some (Inr (Some (JObj [])))"
  by code_simp

text \<open>C9, amended: when the resolver returns an absent (falsy) value for the schema of a
  node, the matcher returns no diagnostic for that node, whatever the node contains. The
  resolver returns absent, and does not throw, when the \<^verbatim>\<open>$ref\<close> of the node does not start
  with \<^verbatim>\<open>#\<close>, when the walk of the pointer finds no value (on an object, a part that is
  neither an own key nor the name of an inherited member ends the walk), and when every
  branch of a non-empty \<^verbatim>\<open>allOf\<close> resolves to absent. A pointer that leads to an inherited
  member resolves to that member, and the matcher returns no diagnostic against it
  either.\<close>

theorem C9_absent_is_silent:
  "(resolveSchemaNode fuel schema rootSchema [] = Some (Inr r) \<and> \<not> truthy_opt r
      \<longrightarrow> visitNodeForDiagnostics fuel node schema rootSchema doc config = Some (Inr []))
   \<and> (refOf sa = Some ra \<and> \<not> startsWith ra ''#''
      \<longrightarrow> resolveSchemaNode (Suc fuel) (Some sa) rootSchema seen = Some (Inr None))
   \<and> (refOf sb = Some rb \<and> resolvePointer rootSchema rb = None
      \<longrightarrow> resolveSchemaNode (Suc fuel) (Some sb) rootSchema seen = Some (Inr None))
   \<and> (refOf sc = None \<and> getProp sc ''allOf'' = Some (JArr entries) \<and> entries \<noteq> [] \<and>
       (\<forall>entry \<in> set entries.
          \<exists>v. resolveSchemaNode fuel (Some entry) rootSchema [] = Some (Inr v) \<and> \<not> truthy_opt v)
      \<longrightarrow> resolveSchemaNode (Suc fuel) (Some sc) rootSchema seen = Some (Inr None))
   \<and> (map_of kvs part = None \<and> inherited ObjectPrototype part = None
      \<longrightarrow> walkPointer (JObj kvs) (part # parts) = None)
   \<and> (refOf sd = Some rd \<and> resolvePointer rootSchema rd = Some (JBuiltin b)
      \<longrightarrow> resolveSchemaNode (Suc (Suc fuel)) (Some sd) rootSchema seen = Some (Inr (Some (JBuiltin b))))
   \<and> (resolveSchemaNode fuel schemaI rootSchema [] = Some (Inr (Some (JBuiltin c)))
      \<longrightarrow> visitNodeForDiagnostics fuel node schemaI rootSchema doc config = Some (Inr []))"
proof (intro conjI impI)
  assume a: "resolveSchemaNode fuel schema rootSchema [] = Some (Inr r) \<and> \<not> truthy_opt r"
  show "visitNodeForDiagnostics fuel node schema rootSchema doc config = Some (Inr [])"
    using a by (cases node) (simp add: ret_def)
next
  assume a: "refOf sa = Some ra \<and> \<not> startsWith ra ''#''"
  then have "truthy sa" by (auto dest: refOf_truthy)
  with a show "resolveSchemaNode (Suc fuel) (Some sa) rootSchema seen = Some (Inr None)"
    by simp
next
  assume a: "refOf sb = Some rb \<and> resolvePointer rootSchema rb = None"
  then have "truthy sb" by (auto dest: refOf_truthy)
  with a show "resolveSchemaNode (Suc fuel) (Some sb) rootSchema seen = Some (Inr None)"
    by simp
next
  assume a: "refOf sc = None \<and> getProp sc ''allOf'' = Some (JArr entries) \<and> entries \<noteq> [] \<and>
       (\<forall>entry \<in> set entries.
          \<exists>v. resolveSchemaNode fuel (Some entry) rootSchema [] = Some (Inr v) \<and> \<not> truthy_opt v)"
  then obtain kvs where sc: "sc = JObj kvs"
    by (auto dest: getProp_Some_JObj)
  from a have "\<forall>r \<in> set (map (\<lambda>entry. resolveSchemaNode fuel (Some entry) rootSchema []) entries).
                 \<exists>v. r = Some (Inr v) \<and> \<not> truthy_opt v"
    by auto
  from collect_absent [OF this] obtain vs where
    vs: "collect (map (\<lambda>entry. resolveSchemaNode fuel (Some entry) rootSchema []) entries) = Some (Inr vs)"
        "filterBoolean vs = []"
    by blast
  show "resolveSchemaNode (Suc fuel) (Some sc) rootSchema seen = Some (Inr None)"
    using a vs unfolding sc by (simp add: mergeSchemas_def)
next
  assume "map_of kvs part = None \<and> inherited ObjectPrototype part = None"
  then show "walkPointer (JObj kvs) (part # parts) = None"
    by (simp add: getProp_JObj)
next
  assume a: "refOf sd = Some rd \<and> resolvePointer rootSchema rd = Some (JBuiltin b)"
  then have "truthy sd" "startsWith rd ''#''"
    by (auto dest: refOf_truthy resolvePointer_hash)
  with a show "resolveSchemaNode (Suc (Suc fuel)) (Some sd) rootSchema seen =
                 Some (Inr (Some (JBuiltin b)))"
    by (subst resolveSchemaNode.simps(2))
       (simp add: resolve_builtin del: resolveSchemaNode.simps(2))
next
  assume "resolveSchemaNode fuel schemaI rootSchema [] = Some (Inr (Some (JBuiltin c)))"
  then show "visitNodeForDiagnostics fuel node schemaI rootSchema doc config = Some (Inr [])"
    by (rule visit_resolved_builtin)
qed

theorem C9_absent_is_silent_witness:
  "resolveSchemaNode 1 (Some remoteRef) emptyRoot [] = Some (Inr None)
   \<and> resolveSchemaNode 1 (Some danglingRef) emptyRoot [] = Some (Inr None)
   \<and> resolveSchemaNode 2 (Some allRemote) emptyRoot [] = Some (Inr None)
   \<and> visitNodeForDiagnostics 2 personNode (Some allRemote) emptyRoot exampleDocument exampleConfig
       = Some (Inr [])
   \<and> walkPointer (JObj []) [''missing''] = None
   \<and> resolveSchemaNode 2 (Some toStringRef) emptyRoot [] =
       Some (Inr (Some (JBuiltin (BuiltinFunction ObjectPrototype ''toString''))))
   \<and> visitNodeForDiagnostics 2 personNode (Some toStringRef) emptyRoot exampleDocument exampleConfig
       = Some (Inr [])"
proof -
  have 1: "refOf remoteRef = Some ''http://example.com/s.json'' \<and>
           \<not> startsWith ''http://example.com/s.json'' ''#''"
    by code_simp
  have 2: "refOf danglingRef = Some ''#/definitions/missing'' \<and>
           resolvePointer emptyRoot ''#/definitions/missing'' = None"
    by code_simp
  have 3: "refOf allRemote = None \<and> getProp allRemote ''allOf'' = Some (JArr [remoteRef, danglingRef]) \<and>
           [remoteRef, danglingRef] \<noteq> []"
    by code_simp
  have 6: "map_of ([] :: (string \<times> json) list) ''missing'' = None \<and>
           inherited ObjectPrototype ''missing'' = None"
    by code_simp
  have 7: "refOf toStringRef = Some ''#/definitions/toString'' \<and>
           resolvePointer emptyRoot ''#/definitions/toString'' =
             Some (JBuiltin (BuiltinFunction ObjectPrototype ''toString''))"
    by code_simp
  note T = C9_absent_is_silent [where sa = remoteRef and ra = "''http://example.com/s.json''"
      and sb = danglingRef and rb = "''#/definitions/missing''" and rootSchema = emptyRoot
      and sc = allRemote and entries = "[remoteRef, danglingRef]" and seen = "[]"
      and kvs = "[]" and part = "''missing''" and parts = "[]"
      and sd = toStringRef and rd = "''#/definitions/toString''"
      and b = "BuiltinFunction ObjectPrototype ''toString''"
      and c = "BuiltinFunction ObjectPrototype ''toString''"
      and node = personNode and doc = exampleDocument and config = exampleConfig]
  have a: "resolveSchemaNode (Suc 0) (Some remoteRef) emptyRoot [] = Some (Inr None)"
    using T [where fuel = 0] 1 by blast
  have b: "resolveSchemaNode (Suc 0) (Some danglingRef) emptyRoot [] = Some (Inr None)"
    using T [where fuel = 0] 2 by blast
  have 4: "\<forall>entry \<in> set [remoteRef, danglingRef].
          \<exists>v. resolveSchemaNode (Suc 0) (Some entry) emptyRoot [] = Some (Inr v) \<and> \<not> truthy_opt v"
    using a b by (simp add: truthy_opt_def)
  have c: "resolveSchemaNode (Suc (Suc 0)) (Some allRemote) emptyRoot [] = Some (Inr None)"
    using T [where fuel = "Suc 0"] 3 4 by blast
  have 5: "\<not> truthy_opt None" by (simp add: truthy_opt_def)
  have d: "visitNodeForDiagnostics (Suc (Suc 0)) personNode (Some allRemote) emptyRoot
             exampleDocument exampleConfig = Some (Inr [])"
    using T [where fuel = "Suc (Suc 0)" and schema = "Some allRemote" and r = None] c 5
    by blast
  have e: "walkPointer (JObj []) [''missing''] = None"
    using T [where fuel = 0] 6 by blast
  have f: "resolveSchemaNode (Suc (Suc 0)) (Some toStringRef) emptyRoot [] =
             Some (Inr (Some (JBuiltin (BuiltinFunction ObjectPrototype ''toString''))))"
    using T [where fuel = 0] 7 by blast
  have g: "visitNodeForDiagnostics (Suc (Suc 0)) personNode (Some toStringRef) emptyRoot
             exampleDocument exampleConfig = Some (Inr [])"
    using T [where fuel = "Suc (Suc 0)" and schemaI = "Some toStringRef"] f by blast
  have n: "(1::nat) = Suc 0" "(2::nat) = Suc (Suc 0)" by simp_all
  show ?thesis unfolding n using a b c d e f g by simp
qed

section \<open>additionalProperties set to false\<close>
















section \<open>The reserved key $schema\<close>

lemma visitProperties_skip:
  "isSchemaProperty p \<Longrightarrow>
   visitProperties fuel (p # rest) rs rootSchema doc config =
   visitProperties fuel rest rs rootSchema doc config"
  by (auto simp: isSchemaProperty_def split: option.splits)

lemma visitProperties_keep:
  "\<not> isSchemaProperty p \<Longrightarrow>
   visitProperties fuel rest rs rootSchema doc config =
   visitProperties fuel rest' rs rootSchema doc config \<Longrightarrow>
   visitProperties fuel (p # rest) rs rootSchema doc config =
   visitProperties fuel (p # rest') rs rootSchema doc config"
  by (simp cong: option.case_cong if_cong split: prod.splits)

lemma visitProperties_without:
  "visitProperties fuel props rs rootSchema doc config =
   visitProperties fuel (withoutSchemaProperties props) rs rootSchema doc config"
proof (induction props)
  case Nil
  show ?case by (simp add: withoutSchemaProperties_def)
next
  case (Cons p props)
  show ?case
  proof (cases "isSchemaProperty p")
    case True
    then show ?thesis
      using Cons.IH by (simp add: withoutSchemaProperties_def visitProperties_skip del: visitProperties.simps)
  next
    case False
    then show ?thesis
      using visitProperties_keep [OF False Cons.IH]
      by (simp add: withoutSchemaProperties_def del: visitProperties.simps)
  qed
qed

lemma isNodeTypeCompatible_children:
  "isNodeTypeCompatible (Node ty val off len cs) rs = isNodeTypeCompatible (Node ty val off len cs') rs"
  by (simp add: isNodeTypeCompatible_def Let_def cong: node_type.case_cong if_cong)

lemma createTypeMismatchDiagnostic_children:
  "createTypeMismatchDiagnostic (Node ty val off len cs) rs doc =
   createTypeMismatchDiagnostic (Node ty val off len cs') rs doc"
  by (simp add: createTypeMismatchDiagnostic_def Let_def cong: sum.case_cong)

lemma missingRequired_children:
  "missingRequired (Node ty val off len cs) requiredSet presentKeys doc =
   missingRequired (Node ty val off len cs') requiredSet presentKeys doc"
  by (simp add: missingRequired_def createMissingRequiredDiagnostic_def Let_def)

lemma createMissingRequiredDiagnostic_inj:
  "createMissingRequiredDiagnostic node k doc = createMissingRequiredDiagnostic node k' doc \<Longrightarrow> k = k'"
  by (simp add: createMissingRequiredDiagnostic_def Let_def dquote_def)

text \<open>C8: a property named \<^verbatim>\<open>$schema\<close> leaves no trace in the result of the matcher. The
  first loop of the object case returns the same present keys and diagnostics with the
  \<^verbatim>\<open>$schema\<close> properties as without them, so an object node is matched as if these
  properties were not there: not flagged, not validated, not counted as present. The
  second loop never reports \<^verbatim>\<open>$schema\<close> as missing, also when \<^verbatim>\<open>required\<close> names it.\<close>

theorem C8_schema_key_ignored:
  "visitProperties fuel props rs rootSchema doc config =
     visitProperties fuel (withoutSchemaProperties props) rs rootSchema doc config
   \<and> visitNodeForDiagnostics fuel (Node ObjectType val off len (Some props)) schema rootSchema doc config =
     visitNodeForDiagnostics fuel (Node ObjectType val off len (Some (withoutSchemaProperties props)))
       schema rootSchema doc config
   \<and> missingRequired node requiredSet presentKeys doc =
     missingRequired node (filter (\<lambda>k. k \<noteq> ''$schema'') requiredSet) presentKeys doc
   \<and> createMissingRequiredDiagnostic node ''$schema'' doc
       \<notin> set (missingRequired node requiredSet presentKeys doc)
   \<and> visitNodeForDiagnostics 1 numericSchemaKey (Some schemaRequired) schemaRequired
       exampleDocument exampleConfig =
     Some (Inr [createMissingRequiredDiagnostic numericSchemaKey ''name'' exampleDocument])"
proof (intro conjI)
  show "visitProperties fuel props rs rootSchema doc config =
     visitProperties fuel (withoutSchemaProperties props) rs rootSchema doc config"
    by (rule visitProperties_without)
next
  show "visitNodeForDiagnostics fuel (Node ObjectType val off len (Some props)) schema rootSchema doc config =
     visitNodeForDiagnostics fuel (Node ObjectType val off len (Some (withoutSchemaProperties props)))
       schema rootSchema doc config"
    using visitProperties_without [of fuel props _ rootSchema doc config]
    by (simp add: childrenOrEmpty_def
          isNodeTypeCompatible_children [of ObjectType val off len "Some props" _
            "Some (withoutSchemaProperties props)"]
          createTypeMismatchDiagnostic_children [of ObjectType val off len "Some props" _ doc
            "Some (withoutSchemaProperties props)"]
          missingRequired_children [of ObjectType val off len "Some props" _ _ doc
            "Some (withoutSchemaProperties props)"]
          cong: if_cong)
next
  show "missingRequired node requiredSet presentKeys doc =
     missingRequired node (filter (\<lambda>k. k \<noteq> ''$schema'') requiredSet) presentKeys doc"
    by (simp add: missingRequired_def cong: conj_cong)
next
  show "createMissingRequiredDiagnostic node ''$schema'' doc
       \<notin> set (missingRequired node requiredSet presentKeys doc)"
    by (auto simp: missingRequired_def dest!: createMissingRequiredDiagnostic_inj)
next
  show "visitNodeForDiagnostics 1 numericSchemaKey (Some schemaRequired) schemaRequired
       exampleDocument exampleConfig =
     Some (Inr [createMissingRequiredDiagnostic numericSchemaKey ''name'' exampleDocument])"
    by code_simp
qed

theorem C8_schema_key_ignored_witness:
  "visitNodeForDiagnostics 1 (Node ObjectType None 0 14 (Some [])) (Some schemaRequired) schemaRequired
       exampleDocument exampleConfig =
     Some (Inr [createMissingRequiredDiagnostic numericSchemaKey ''name'' exampleDocument])"
proof -
  let ?props = "[Node PropertyType None 1 12 (Some [stringNode ''$schema'' 1 9, numberNode 5])]"
  note T = C8_schema_key_ignored [where fuel = 1 and val = None and off = 0 and len = 14
      and props = ?props and schema = "Some schemaRequired" and rootSchema = schemaRequired
      and doc = exampleDocument and config = exampleConfig]
  have 1: "withoutSchemaProperties ?props = []" by code_simp
  have 2: "numericSchemaKey = Node ObjectType None 0 14 (Some ?props)"
    by (simp add: numericSchemaKey_def)
  have "visitNodeForDiagnostics 1 (Node ObjectType None 0 14 (Some (withoutSchemaProperties ?props)))
          (Some schemaRequired) schemaRequired exampleDocument exampleConfig =
        Some (Inr [createMissingRequiredDiagnostic numericSchemaKey ''name'' exampleDocument])"
    using T unfolding 2 [symmetric] by metis
  then show ?thesis unfolding 1 .
qed

section \<open>Termination of schema resolution\<close>

subsection \<open>Single steps of the resolver\<close>

lemma resolve_falsy: "\<not> truthy_opt schema \<Longrightarrow> resolveSchemaNode (Suc fuel) schema rootSchema seen = Some (Inr None)"
  by (cases schema) (simp_all add: truthy_opt_def)

lemma resolve_ref:
  "truthy s \<Longrightarrow> refOf s = Some r \<Longrightarrow>
   resolveSchemaNode (Suc fuel) (Some s) rootSchema seen =
     (if \<not> startsWith r ''#'' then Some (Inr None)
      else (case resolvePointer rootSchema r of
              None \<Rightarrow> Some (Inr None)
            | Some resolved \<Rightarrow>
                if \<not> truthy resolved \<or> pointerParts r \<in> set seen then Some (Inr (Some resolved))
                else resolveSchemaNode fuel (Some resolved) rootSchema (pointerParts r # seen)))"
  by simp

lemma resolve_oneOf:
  "truthy s \<Longrightarrow> refOf s = None \<Longrightarrow> hasEntries (getProp s ''allOf'') = Inr False \<Longrightarrow>
   hasEntries (getProp s ''oneOf'') = Inr True \<Longrightarrow>
   resolveSchemaNode (Suc fuel) (Some s) rootSchema seen =
     resolveSchemaNode fuel (getProp (the (getProp s ''oneOf'')) ''0'') rootSchema seen"
  by simp

lemma resolve_anyOf:
  "truthy s \<Longrightarrow> refOf s = None \<Longrightarrow> hasEntries (getProp s ''allOf'') = Inr False \<Longrightarrow>
   hasEntries (getProp s ''oneOf'') = Inr False \<Longrightarrow> hasEntries (getProp s ''anyOf'') = Inr True \<Longrightarrow>
   resolveSchemaNode (Suc fuel) (Some s) rootSchema seen =
     resolveSchemaNode fuel (getProp (the (getProp s ''anyOf'')) ''0'') rootSchema seen"
  by simp

lemma resolve_concrete:
  "truthy s \<Longrightarrow> refOf s = None \<Longrightarrow> hasEntries (getProp s ''allOf'') = Inr False \<Longrightarrow>
   hasEntries (getProp s ''oneOf'') = Inr False \<Longrightarrow> hasEntries (getProp s ''anyOf'') = Inr False \<Longrightarrow>
   resolveSchemaNode (Suc fuel) (Some s) rootSchema seen = Some (Inr (Some s))"
  by simp

lemma hasEntries_True:
  "hasEntries x = Inr True \<Longrightarrow> \<exists>v. x = Some v \<and> truthy v \<and> (\<forall>xs. v = JArr xs \<longrightarrow> xs \<noteq> [])"
  by (cases x) (auto simp: hasEntries_def split: if_splits)

lemma resolve_typeError:
  "truthy s \<Longrightarrow> refOf s = None \<Longrightarrow> hasEntries (getProp s ''allOf'') = Inr True \<Longrightarrow>
   \<forall>entries. getProp s ''allOf'' \<noteq> Some (JArr entries) \<Longrightarrow>
   resolveSchemaNode (Suc fuel) (Some s) rootSchema seen = Some (Inl TypeError)"
  by (auto split: option.splits json.splits)

lemma resolve_allOf:
  "truthy s \<Longrightarrow> refOf s = None \<Longrightarrow> hasEntries (getProp s ''allOf'') = Inr True \<Longrightarrow>
   getProp s ''allOf'' = Some (JArr entries) \<Longrightarrow>
   resolveSchemaNode (Suc fuel) (Some s) rootSchema seen =
     (case collect (map (\<lambda>entry. resolveSchemaNode fuel (Some entry) rootSchema []) entries) of
        None \<Rightarrow> None
      | Some (Inl e) \<Rightarrow> Some (Inl e)
      | Some (Inr branches) \<Rightarrow> Some (mergeSchemas (filterBoolean branches)))"
  by simp

lemma resolve_hasEntries_error:
  "truthy s \<Longrightarrow> refOf s = None \<Longrightarrow>
   hasEntries (getProp s ''allOf'') = Inl e \<or>
   hasEntries (getProp s ''allOf'') = Inr False \<and>
     (hasEntries (getProp s ''oneOf'') = Inl e \<or>
      hasEntries (getProp s ''oneOf'') = Inr False \<and> hasEntries (getProp s ''anyOf'') = Inl e) \<Longrightarrow>
   resolveSchemaNode (Suc fuel) (Some s) rootSchema seen = Some (Inl e)"
  by auto

declare resolveSchemaNode.simps(2) [simp del]


lemma resolve_nonobject:
  assumes "\<forall>kvs. s \<noteq> JObj kvs"
  shows "resolveSchemaNode (Suc fuel) (Some s) rootSchema seen =
           Some (Inr (if truthy s then Some s else None))"
proof -
  have k: "getProp s k = None"
    if "index_of_key k = None" "k \<noteq> ''length''" "\<forall>p. inherited p k = None" for k
    using assms that getProp_Some_JObj [of s k] by (cases "getProp s k") auto
  have "getProp s ''$ref'' = None" "getProp s ''allOf'' = None" "getProp s ''oneOf'' = None"
    "getProp s ''anyOf'' = None"
    by (rule k; simp add: index_of_key_def is_digit_def)+
  then have "refOf s = None" "hasEntries (getProp s ''allOf'') = Inr False"
    "hasEntries (getProp s ''oneOf'') = Inr False" "hasEntries (getProp s ''anyOf'') = Inr False"
    by (simp_all add: refOf_def hasEntries_def)
  then show ?thesis
    by (cases "truthy s") (simp_all add: resolve_concrete resolve_falsy truthy_opt_def)
qed

declare resolveSchemaNode.simps(2) [simp del]

subsection \<open>More fuel does not change a result\<close>

lemma collect_mono:
  "(\<forall>e \<in> set es. \<forall>y. f e = Some y \<longrightarrow> g e = Some y) \<Longrightarrow> collect (map f es) = Some x \<Longrightarrow>
   collect (map g es) = Some x"
proof (induction es arbitrary: x)
  case Nil
  then show ?case by simp
next
  case (Cons e es)
  then show ?case
    by (cases "f e") (auto split: sum.splits option.splits)
qed

lemma resolve_fuel_mono:
  "resolveSchemaNode fuel schema rootSchema seen = Some res \<Longrightarrow>
   resolveSchemaNode (fuel + k) schema rootSchema seen = Some res"
proof (induction fuel arbitrary: schema seen res)
  case 0
  then show ?case by simp
next
  case (Suc fuel)
  note IH = Suc.IH
  show ?case
  proof (cases "truthy_opt schema")
    case False
    with Suc.prems show ?thesis by (simp add: resolve_falsy)
  next
    case True
    then obtain s where s: "schema = Some s" and tr: "truthy s"
      by (cases schema) (auto simp: truthy_opt_def)
    show ?thesis
    proof (cases "refOf s")
      case (Some r)
      from Suc.prems show ?thesis
        unfolding s add_Suc resolve_ref [OF tr Some]
        by (auto split: if_splits option.splits dest: IH)
    next
      case None
      show ?thesis
      proof (cases "hasEntries (getProp s ''allOf'')")
        case (Inl e)
        with Suc.prems show ?thesis
          unfolding s add_Suc by (simp add: resolve_hasEntries_error [OF tr None])
      next
        case (Inr b)
        show ?thesis
        proof (cases b)
          case True
          with Inr have all: "hasEntries (getProp s ''allOf'') = Inr True" by simp
          show ?thesis
          proof (cases "\<exists>entries. getProp s ''allOf'' = Some (JArr entries)")
            case False
            with Suc.prems show ?thesis
              unfolding s add_Suc by (simp add: resolve_typeError [OF tr None all])
          next
            case ex: True
            then obtain entries where e: "getProp s ''allOf'' = Some (JArr entries)" by blast
            let ?f = "\<lambda>entry. resolveSchemaNode fuel (Some entry) rootSchema []"
            let ?g = "\<lambda>entry. resolveSchemaNode (fuel + k) (Some entry) rootSchema []"
            from Suc.prems obtain x where x: "collect (map ?f entries) = Some x"
              unfolding s resolve_allOf [OF tr None all e]
              by (cases "collect (map ?f entries)") auto
            have "collect (map ?g entries) = Some x"
              by (rule collect_mono [OF _ x]) (auto dest: IH)
            with Suc.prems x show ?thesis
              unfolding s add_Suc resolve_allOf [OF tr None all e] by simp
          qed
        next
          case False
          with Inr have noall: "hasEntries (getProp s ''allOf'') = Inr False" by simp
          show ?thesis
          proof (cases "hasEntries (getProp s ''oneOf'')")
            case (Inl e)
            with Suc.prems noall show ?thesis
              unfolding s add_Suc by (simp add: resolve_hasEntries_error [OF tr None])
          next
            case (Inr c)
            show ?thesis
            proof (cases c)
              case True
              with Inr have one: "hasEntries (getProp s ''oneOf'') = Inr True" by simp
              from Suc.prems show ?thesis
                unfolding s add_Suc resolve_oneOf [OF tr None noall one]
                by (rule IH)
            next
              case False
              with Inr have noone: "hasEntries (getProp s ''oneOf'') = Inr False" by simp
              show ?thesis
              proof (cases "hasEntries (getProp s ''anyOf'')")
                case (Inl e)
                with Suc.prems noall noone show ?thesis
                  unfolding s add_Suc by (simp add: resolve_hasEntries_error [OF tr None])
              next
                case (Inr d)
                show ?thesis
                proof (cases d)
                  case True
                  with Inr have any: "hasEntries (getProp s ''anyOf'') = Inr True" by simp
                  from Suc.prems show ?thesis
                    unfolding s add_Suc resolve_anyOf [OF tr None noall noone any]
                    by (rule IH)
                next
                  case False
                  with Inr have "hasEntries (getProp s ''anyOf'') = Inr False" by simp
                  with Suc.prems show ?thesis
                    unfolding s add_Suc by (simp add: resolve_concrete [OF tr None noall noone])
                qed
              qed
            qed
          qed
        qed
      qed
    qed
  qed
qed


subsection \<open>A reference that comes back through allOf\<close>

lemma loop_diverges:
  "resolveSchemaNode fuel (Some loopStart) loopRoot [] = None \<and>
   (\<forall>seen. resolveSchemaNode fuel
      (Some (JObj [(''allOf'', JArr [JObj [(''$ref'', JStr ''#/definitions/x'')]])])) loopRoot seen = None)"
proof (induction fuel)
  case 0
  show ?case by simp
next
  case (Suc fuel)
  let ?body = "JObj [(''allOf'', JArr [JObj [(''$ref'', JStr ''#/definitions/x'')]])]"
  have p: "resolvePointer loopRoot ''#/definitions/x'' = Some ?body"
    by code_simp
  have r: "refOf loopStart = Some ''#/definitions/x''" by code_simp
  have t: "truthy loopStart" by code_simp
  have 1: "resolveSchemaNode (Suc fuel) (Some loopStart) loopRoot [] = None"
    using Suc by (simp add: resolve_ref [OF t r] p)
  have b: "truthy ?body" "refOf ?body = None" "hasEntries (getProp ?body ''allOf'') = Inr True"
    "getProp ?body ''allOf'' = Some (JArr [loopStart])"
    by (simp_all add: refOf_def loopStart_def)
  have 2: "resolveSchemaNode (Suc fuel) (Some ?body) loopRoot seen = None" for seen
    using Suc by (simp add: resolve_allOf [OF b])
  from 1 2 show ?case by simp
qed

subsection \<open>A chain of any length, and a reference to itself\<close>

lemma replace_tilde1_id: "CHR ''~'' \<notin> set s \<Longrightarrow> replace_tilde1 s = s"
  by (induction s rule: replace_tilde1.induct) auto

lemma replace_tilde0_id: "CHR ''~'' \<notin> set s \<Longrightarrow> replace_tilde0 s = s"
  by (induction s rule: replace_tilde0.induct) auto

lemma split_slash_id: "CHR ''/'' \<notin> set s \<Longrightarrow> split_slash s = [s]"
  by (induction s) auto

lemma chainName_inj: "chainName i = chainName j \<Longrightarrow> i = j"
proof -
  assume "chainName i = chainName j"
  then have "length (chainName i) = length (chainName j)" by simp
  then show ?thesis by (simp add: chainName_def)
qed

lemma pointerParts_chain:
  "pointerParts (chainPointer i) = [''definitions'', chainName i]"
proof -
  have "set (chainName i) \<subseteq> {CHR ''d''}" by (auto simp: chainName_def)
  then have n: "CHR ''/'' \<notin> set (chainName i)" "CHR ''~'' \<notin> set (chainName i)" by auto
  have "split_slash (''definitions/'' @ chainName i) = [''definitions'', chainName i]"
    by (simp add: split_slash_id [OF n(1)])
  then show ?thesis
    by (simp add: pointerParts_def chainPointer_def replace_tilde1_id [OF n(2)]
          replace_tilde0_id [OF n(2)])
qed

lemma startsWith_chain: "startsWith (chainPointer i) ''#''" "startsWith (chainPointer i) ''#/''"
  by (simp_all add: chainPointer_def)

lemma map_of_tabulate:
  "(\<And>a b. f a = f b \<Longrightarrow> a = b) \<Longrightarrow> x \<in> set xs \<Longrightarrow>
   map_of (map (\<lambda>i. (f i, g i)) xs) (f x) = Some (g x)"
  by (induction xs) auto

lemma resolvePointer_chain:
  assumes "i \<le> n"
  shows "resolvePointer (chainRoot n) (chainPointer i) = Some (chainLink n i)"
proof -
  have "i \<in> set [0..<Suc n]" using assms by (simp del: upt_Suc)
  then have "map_of (map (\<lambda>i. (chainName i, chainLink n i)) [0..<Suc n]) (chainName i) =
               Some (chainLink n i)"
    by (intro map_of_tabulate chainName_inj)
  then show ?thesis
    unfolding resolvePointer_def pointerParts_chain
    by (simp add: chainRoot_def startsWith_chain getProp_JObj del: upt_Suc)
qed

lemma refOf_chainRef: "refOf (chainRef i) = Some (chainPointer i)"
  by (simp add: refOf_def chainRef_def chainPointer_def)

lemma truthy_chainRef: "truthy (chainRef i)"
  by (simp add: chainRef_def)

lemma resolve_typeString:
  "resolveSchemaNode (Suc fuel) (Some typeString) rootSchema seen = Some (Inr (Some typeString))"
  by (rule resolve_concrete) (simp_all add: typeString_def refOf_def hasEntries_def)

lemma resolve_chain_from:
  "k \<le> n \<Longrightarrow> \<forall>j. k \<le> j \<longrightarrow> [''definitions'', chainName j] \<notin> set seen \<Longrightarrow>
   resolveSchemaNode (n - k + 2) (Some (chainRef k)) (chainRoot n) seen = Some (Inr (Some typeString))"
proof (induction "n - k" arbitrary: k seen)
  case 0
  then have kn: "k = n" by simp
  have "resolveSchemaNode (Suc (Suc 0)) (Some (chainRef n)) (chainRoot n) seen =
        resolveSchemaNode (Suc 0) (Some typeString) (chainRoot n) ([''definitions'', chainName n] # seen)"
    using "0.prems"(2) kn
    by (simp add: resolve_ref [OF truthy_chainRef refOf_chainRef] resolvePointer_chain
          pointerParts_chain startsWith_chain chainLink_def typeString_def)
  then show ?case
    unfolding kn by (simp add: resolve_typeString numeral_2_eq_2)
next
  case (Suc m)
  then have lt: "k < n" and m: "m = n - Suc k" by simp_all
  have fuel: "n - k + 2 = Suc (n - Suc k + 2)" using lt by simp
  have step: "resolveSchemaNode (Suc (n - Suc k + 2)) (Some (chainRef k)) (chainRoot n) seen =
        resolveSchemaNode (n - Suc k + 2) (Some (chainRef (Suc k))) (chainRoot n)
          ([''definitions'', chainName k] # seen)"
    using Suc.prems lt
    by (simp add: resolve_ref [OF truthy_chainRef refOf_chainRef] resolvePointer_chain
          pointerParts_chain startsWith_chain chainLink_def truthy_chainRef)
  have "\<forall>j. Suc k \<le> j \<longrightarrow> [''definitions'', chainName j] \<notin> set ([''definitions'', chainName k] # seen)"
    using Suc.prems(2) by (auto dest: chainName_inj)
  from Suc.hyps(1) [OF m _ this] lt
  have "resolveSchemaNode (n - Suc k + 2) (Some (chainRef (Suc k))) (chainRoot n)
          ([''definitions'', chainName k] # seen) = Some (Inr (Some typeString))"
    by simp
  with step show ?case unfolding fuel by simp
qed

lemma resolve_chain:
  "resolveSchemaNode (n + 2) (Some (chainRef 0)) (chainRoot n) [] = Some (Inr (Some typeString))"
  using resolve_chain_from [of 0 n "[]"] by simp

lemma resolve_self_reference:
  assumes "refOf s = Some r" "startsWith r ''#''" "resolvePointer rootSchema r = Some t"
    "truthy t" "refOf t = Some r"
  shows "resolveSchemaNode (Suc (Suc fuel)) (Some s) rootSchema seen = Some (Inr (Some t))"
proof -
  have s: "truthy s" using assms(1) by (rule refOf_truthy)
  have inner: "resolveSchemaNode (Suc fuel) (Some t) rootSchema (pointerParts r # seen) = Some (Inr (Some t))"
    using assms by (simp add: resolve_ref [OF assms(4,5)])
  show ?thesis
    using assms inner by (simp add: resolve_ref [OF s assms(1)])
qed




lemma resolve_followsChain:
  "followsChain rootSchema s rs t \<Longrightarrow> plainSchema t \<Longrightarrow> distinct (map pointerParts rs) \<Longrightarrow>
   set (map pointerParts rs) \<inter> set seen = {} \<Longrightarrow>
   resolveSchemaNode (Suc (length rs) + k) (Some s) rootSchema seen = Some (Inr (Some t))"
proof (induction rs arbitrary: s seen)
  case Nil
  then show ?case by (simp add: plainSchema_def resolve_concrete)
next
  case (Cons r rs)
  from Cons.prems(1) obtain u where
    r: "refOf s = Some r" and sw: "startsWith r ''#''" and
    u: "resolvePointer rootSchema r = Some u" "truthy u" and
    chain: "followsChain rootSchema u rs t"
    by (auto split: option.splits)
  from r have tr: "truthy s" by (rule refOf_truthy)
  from Cons.prems(3,4) have fresh: "pointerParts r \<notin> set seen"
    and rest: "distinct (map pointerParts rs)"
      "set (map pointerParts rs) \<inter> set (pointerParts r # seen) = {}"
    by auto
  from Cons.IH [OF chain Cons.prems(2) rest]
  have "resolveSchemaNode (Suc (length rs) + k) (Some u) rootSchema (pointerParts r # seen) =
          Some (Inr (Some t))" .
  with sw u fresh show ?case
    by (simp add: resolve_ref [OF tr r])
qed

subsection \<open>The nodes that resolution reaches\<close>

lemma finite_subvalues: "finite (subvalues v)"
  by (induction v rule: subvalues.induct) auto

lemma subvalues_self: "v \<in> subvalues v"
  by (cases v) auto

lemma subvalues_trans: "u \<in> subvalues v \<Longrightarrow> w \<in> subvalues u \<Longrightarrow> w \<in> subvalues v"
  by (induction v rule: subvalues.induct) auto

lemma subvalues_leaf: "leafValue v \<Longrightarrow> subvalues v = {v}"
  by (cases v) (auto simp: leafValue_def)

lemma size_subvalues: "w \<in> subvalues v \<Longrightarrow> size w \<le> size v"
proof (induction v rule: subvalues.induct)
  case (1 kvs)
  show ?case
  proof (cases "w = JObj kvs")
    case False
    with 1 obtain kv where kv: "kv \<in> set kvs" "w \<in> subvalues (snd kv)" by auto
    with 1 have "size w \<le> size (snd kv)" by auto
    moreover have "size (snd kv) \<le> size_list (size_prod (\<lambda>x. 0) size) kvs"
      using kv(1) by (intro size_list_estimation' [where x = kv]) (cases kv; simp)+
    ultimately show ?thesis by simp
  qed simp
next
  case (2 xs)
  show ?case
  proof (cases "w = JArr xs")
    case False
    with 2 obtain x where x: "x \<in> set xs" "w \<in> subvalues x" by auto
    with 2 have "size w \<le> size x" by auto
    moreover have "size x \<le> size_list size xs"
      using x(1) by (intro size_list_estimation' [where x = x]) simp_all
    ultimately show ?thesis by simp
  qed simp
qed simp_all

lemma map_of_subvalues: "map_of kvs k = Some w \<Longrightarrow> w \<in> subvalues (JObj kvs)"
proof -
  assume "map_of kvs k = Some w"
  then have "(k, w) \<in> set kvs" by (rule map_of_SomeD)
  moreover have "w \<in> subvalues (snd (k, w))" by (simp add: subvalues_self)
  ultimately show ?thesis by (simp only: subvalues.simps) blast
qed

lemma map_of_size: "map_of kvs k = Some w \<Longrightarrow> size w < size (JObj kvs)"
proof -
  assume "map_of kvs k = Some w"
  then have "(k, w) \<in> set kvs" by (rule map_of_SomeD)
  then have "size w \<le> size_list (size_prod (\<lambda>x. 0) size) kvs"
    by (intro size_list_estimation' [where x = "(k, w)"]) simp_all
  then show ?thesis by simp
qed

lemma leafValue_simps [simp]:
  "leafValue JNull" "leafValue (JBool b)" "leafValue (JNum n)" "leafValue (JStr s)"
  "leafValue (JBuiltin c)" "\<not> leafValue (JObj kvs)" "\<not> leafValue (JArr xs)"
  by (simp_all add: leafValue_def)

lemma ownMember_leaf: "ownMember p k = Some v \<Longrightarrow> leafValue v"
  by (auto simp: ownMember_def split: if_splits)

lemma lookupMember_leaf: "lookupMember p k = Some v \<Longrightarrow> leafValue v"
  by (cases p) (auto split: option.splits dest: ownMember_leaf)

lemma inherited_leaf: "inherited p k = Some v \<Longrightarrow> leafValue v"
  by (auto simp: inherited_def split: if_splits dest: lookupMember_leaf)

lemma prototypeOf_leaf [simp]: "leafValue (prototypeOf p)"
  by (cases p) simp_all

lemma getProp_sub: "getProp v k = Some w \<Longrightarrow> w \<in> subvalues v \<or> leafValue w"
proof (cases "(v, k)" rule: getProp.cases)
  case (1 kvs k')
  assume "getProp v k = Some w"
  with 1 show ?thesis
    by (auto simp: getProp_JObj split: option.splits dest: inherited_leaf map_of_subvalues)
next
  case (2 xs k')
  assume "getProp v k = Some w"
  with 2 have "w \<in> set xs \<or> leafValue w"
    by (auto split: if_splits option.splits dest: inherited_leaf)
  with 2 show ?thesis by (auto intro: subvalues_self)
qed (auto split: if_splits option.splits dest: inherited_leaf lookupMember_leaf)

lemma walkPointer_sub:
  "walkPointer c parts = Some w \<Longrightarrow> c \<in> subvalues rootSchema \<or> leafValue c \<Longrightarrow>
   w \<in> subvalues rootSchema \<or> leafValue w"
proof (induction parts arbitrary: c)
  case Nil
  then show ?case by simp
next
  case (Cons part parts)
  from Cons.prems(1) obtain v where
    v: "getProp c part = Some v" and w: "walkPointer v parts = Some w"
    by (auto split: if_splits option.splits)
  from getProp_sub [OF v] Cons.prems(2) have "v \<in> subvalues rootSchema \<or> leafValue v"
    by (auto dest: subvalues_trans simp: subvalues_leaf)
  with w show ?case by (rule Cons.IH)
qed

lemma resolvePointer_sub:
  "resolvePointer rootSchema r = Some w \<Longrightarrow> w \<in> subvalues rootSchema \<or> leafValue w"
proof -
  assume "resolvePointer rootSchema r = Some w"
  then have "walkPointer rootSchema (pointerParts r) = Some w"
    by (simp add: resolvePointer_def split: if_splits)
  then show ?thesis
    by (rule walkPointer_sub) (simp add: subvalues_self)
qed

lemma keyword_JObj:
  assumes "getProp s k = Some w" "k \<in> {''$ref'', ''allOf'', ''oneOf'', ''anyOf''}"
  shows "\<exists>kvs. s = JObj kvs \<and> map_of kvs k = Some w"
proof -
  from assms(2) have "index_of_key k = None" "k \<noteq> ''length''" "\<forall>p. inherited p k = None"
    by auto
  with assms(1) obtain kvs where "s = JObj kvs" by (auto dest: getProp_Some_JObj)
  with assms show ?thesis by auto
qed

lemma hasEntries_Some: "hasEntries x = Inr True \<Longrightarrow> \<exists>v. x = Some v"
  by (cases x) (simp_all add: hasEntries_def)

lemma successors_cases:
  assumes "u \<in> set (successors rootSchema s)"
  obtains (ref) "refTarget rootSchema s = Some u"
        | (entry) "u \<in> set (allOfEntries s)"
        | (first) "firstEntry s = Some u"
  using assms by (auto simp: successors_def split: option.splits)

lemma refOf_JObj: "refOf s = Some r \<Longrightarrow> \<exists>kvs. s = JObj kvs"
proof -
  assume "refOf s = Some r"
  then obtain v where "getProp s ''$ref'' = Some v"
    by (cases "getProp s ''$ref''") (simp_all add: refOf_def)
  from keyword_JObj [OF this] show ?thesis by auto
qed

lemma refTarget_JObj: "refTarget rootSchema s = Some u \<Longrightarrow> \<exists>kvs. s = JObj kvs"
proof (cases "refOf s")
  case None
  assume "refTarget rootSchema s = Some u"
  with None show ?thesis by (simp add: refTarget_def)
next
  case (Some r)
  then show ?thesis by (rule refOf_JObj)
qed

lemma allOfEntries_JObj:
  assumes "u \<in> set (allOfEntries s)"
  shows "\<exists>kvs entries. s = JObj kvs \<and> map_of kvs ''allOf'' = Some (JArr entries) \<and> u \<in> set entries"
proof (cases "getProp s ''allOf''")
  case None
  then have "allOfEntries s = []" by (simp add: allOfEntries_def)
  with assms show ?thesis by simp
next
  case (Some v)
  show ?thesis
  proof (cases "\<exists>entries. v = JArr entries")
    case True
    then obtain entries where v: "v = JArr entries" by blast
    with Some have "allOfEntries s = entries \<or> allOfEntries s = []"
      by (simp add: allOfEntries_def)
    with assms have "u \<in> set entries" by auto
    with keyword_JObj [OF Some] v show ?thesis by auto
  next
    case False
    with Some have "allOfEntries s = []"
      by (cases v) (simp_all add: allOfEntries_def)
    with assms show ?thesis by simp
  qed
qed

lemma firstEntry_JObj:
  assumes "firstEntry s = Some u"
  shows "\<exists>kvs k x. s = JObj kvs \<and> map_of kvs k = Some x \<and> getProp x ''0'' = Some u"
proof -
  from assms consider
      "hasEntries (getProp s ''oneOf'') = Inr True" "getProp (the (getProp s ''oneOf'')) ''0'' = Some u"
    | "hasEntries (getProp s ''anyOf'') = Inr True" "getProp (the (getProp s ''anyOf'')) ''0'' = Some u"
    by (auto simp: firstEntry_def split: if_splits)
  then show ?thesis
  proof cases
    case 1
    from hasEntries_Some [OF 1(1)] obtain x where x: "getProp s ''oneOf'' = Some x" by blast
    from keyword_JObj [OF x] 1(2) x show ?thesis by auto
  next
    case 2
    from hasEntries_Some [OF 2(1)] obtain x where x: "getProp s ''anyOf'' = Some x" by blast
    from keyword_JObj [OF x] 2(2) x show ?thesis by auto
  qed
qed

lemma successors_JObj: "u \<in> set (successors rootSchema s) \<Longrightarrow> \<exists>kvs. s = JObj kvs"
  by (erule successors_cases) (auto dest: refTarget_JObj allOfEntries_JObj firstEntry_JObj)

lemma successors_sub:
  assumes "u \<in> set (successors rootSchema s)"
  shows "u \<in> subvalues s \<or> u \<in> subvalues rootSchema \<or> leafValue u"
  using assms
proof (cases rule: successors_cases)
  case ref
  then show ?thesis
    by (auto simp: refTarget_def split: option.splits if_splits dest: resolvePointer_sub)
next
  case entry
  from allOfEntries_JObj [OF this] obtain kvs entries where
    "s = JObj kvs" "map_of kvs ''allOf'' = Some (JArr entries)" "u \<in> set entries" by blast
  then have "JArr entries \<in> subvalues s" "u \<in> subvalues (JArr entries)"
    by (auto dest: map_of_subvalues intro: subvalues_self)
  then have "u \<in> subvalues s" by (rule subvalues_trans)
  then show ?thesis ..
next
  case first
  from firstEntry_JObj [OF this] obtain kvs k x where
    "s = JObj kvs" "map_of kvs k = Some x" "getProp x ''0'' = Some u" by blast
  then have "x \<in> subvalues s" "u \<in> subvalues x \<or> leafValue u"
    by (auto dest: map_of_subvalues getProp_sub)
  then show ?thesis by (auto dest: subvalues_trans)
qed

lemma firstEntry_size:
  assumes "firstEntry s = Some (JObj kvs)"
  shows "size (JObj kvs) < size s"
proof -
  from firstEntry_JObj [OF assms] obtain kvs' k x where
    s: "s = JObj kvs'" and x: "map_of kvs' k = Some x" and u: "getProp x ''0'' = Some (JObj kvs)"
    by blast
  from getProp_sub [OF u] have "JObj kvs \<in> subvalues x" by (simp add: leafValue_def)
  then have "size (JObj kvs) \<le> size x" by (rule size_subvalues)
  with map_of_size [OF x] show ?thesis unfolding s by simp
qed

lemma reaches_trans:
  "reaches rootSchema b c \<Longrightarrow> reaches rootSchema a b \<Longrightarrow> reaches rootSchema a c"
  by (induction rule: reaches.induct) (auto intro: reaches.intros)

lemma reaches_sub:
  "reaches rootSchema start s \<Longrightarrow>
   s \<in> subvalues start \<or> s \<in> subvalues rootSchema \<or> leafValue s"
proof (induction rule: reaches.induct)
  case (here s)
  show ?case by (simp add: subvalues_self)
next
  case (step s t u)
  from successors_JObj [OF step.hyps(2)] have "\<not> leafValue t" by (auto simp: leafValue_def)
  with step.IH successors_sub [OF step.hyps(2)] show ?case
    by (auto dest: subvalues_trans)
qed

text \<open>A set of nodes that is closed under the calls of the resolver holds every node that
  resolution reaches from one of its members.\<close>

lemma reaches_closed:
  assumes "reaches rootSchema a s" "a \<in> set nodes"
    and "list_all (\<lambda>t. list_all (\<lambda>u. u \<in> set nodes) (successors rootSchema t)) nodes"
  shows "s \<in> set nodes"
  using assms by (induction rule: reaches.induct) (auto simp: list_all_iff)

lemma collect_terminates:
  fixes f :: "nat \<Rightarrow> 'a \<Rightarrow> 'b result"
  assumes "\<forall>e \<in> set es. \<exists>fuel. f fuel e \<noteq> None"
    and mono: "\<And>fuel k e y. f fuel e = Some y \<Longrightarrow> f (fuel + k) e = Some y"
  shows "\<exists>fuel. collect (map (f fuel) es) \<noteq> None"
  using assms(1)
proof (induction es)
  case Nil
  then show ?case by simp
next
  case (Cons e es)
  then obtain fuelA y where y: "f fuelA e = Some y" by auto
  from Cons obtain fuelB x where x: "collect (map (f fuelB) es) = Some x" by auto
  have "f (fuelA + fuelB) e = Some y" using y by (rule mono)
  moreover have "f (fuelA + fuelB) e' = Some y'" if "f fuelB e' = Some y'" for e' y'
    using mono [OF that, of fuelA] by (simp only: add.commute [of fuelA fuelB])
  then have "collect (map (f (fuelA + fuelB)) es) = Some x"
    by (intro collect_mono [OF _ x]) auto
  ultimately have "collect (map (f (fuelA + fuelB)) (e # es)) \<noteq> None"
    by (auto split: sum.splits option.splits)
  then show ?case ..
qed



subsection \<open>Resolution returns unless an allOf entry leads back to its node\<close>

lemma card_seen_less:
  assumes "finite P" "x \<in> P" "x \<notin> set seen"
  shows "card (P - set (x # seen)) < card (P - set seen)"
proof -
  have eq: "P - set (x # seen) = (P - set seen) - {x}" by auto
  have "x \<in> P - set seen" using assms by simp
  moreover have "finite (P - set seen)" using assms by simp
  ultimately have "card ((P - set seen) - {x}) < card (P - set seen)"
    by (rule card_Diff1_less [rotated])
  then show ?thesis unfolding eq .
qed


lemma resolve_terminates_aux:
  assumes acyclic: "noAllOfCycle rootSchema start"
    and F: "F = subvalues start \<union> subvalues rootSchema"
    and R: "R = (\<lambda>s. pointerParts (the (refOf s))) ` F"
  shows "P \<subseteq> F \<Longrightarrow> reaches rootSchema start x \<Longrightarrow> (\<forall>p \<in> P. reaches rootSchema p x) \<Longrightarrow>
         \<exists>fuel. resolveSchemaNode fuel (Some x) rootSchema seen \<noteq> None"
proof (induction "card (F - P)" arbitrary: P x seen rule: less_induct)
  case less
  note outer = less.hyps
  note PF = less.prems(1)
  have finF: "finite F" unfolding F by (simp add: finite_subvalues)
  then have finR: "finite R" unfolding R by simp
  from less.prems(2,3) show ?case
  proof (induction "card (R - set seen)" arbitrary: x seen rule: less_induct)
    case less
    note middle = less.hyps
    from less.prems show ?case
    proof (induction "size x" arbitrary: x rule: less_induct)
      case (less x)
      note inner = less.hyps
      note rx = less.prems(1) and px = less.prems(2)
      have leaf: "\<exists>fuel. resolveSchemaNode fuel v rootSchema seen \<noteq> None"
        if "\<forall>kvs. v \<noteq> Some (JObj kvs)" for v
      proof (cases v)
        case None
        then have "resolveSchemaNode (Suc 0) v rootSchema seen \<noteq> None"
          by (simp add: resolve_falsy truthy_opt_def)
        then show ?thesis ..
      next
        case (Some u)
        with that have "\<forall>kvs. u \<noteq> JObj kvs" by simp
        from resolve_nonobject [OF this, of 0 rootSchema seen] Some
        have "resolveSchemaNode (Suc 0) v rootSchema seen \<noteq> None" by simp
        then show ?thesis ..
      qed
      show ?case
      proof (cases "\<exists>kvs. x = JObj kvs")
        case False
        then show ?thesis by (intro leaf) simp
      next
        case True
        then have tr: "truthy x" by auto
        from True reaches_sub [OF rx] have xF: "x \<in> F" unfolding F by auto
        have next_node: "\<exists>fuel. resolveSchemaNode fuel u rootSchema seen \<noteq> None"
          if "\<And>w. u = Some w \<Longrightarrow> firstEntry x = Some w" for u
        proof (cases "\<exists>kvs. u = Some (JObj kvs)")
          case False
          then show ?thesis by (intro leaf) simp
        next
          case True
          then obtain kvs where u: "u = Some (JObj kvs)" by blast
          with that have fe: "firstEntry x = Some (JObj kvs)" by simp
          then have "JObj kvs \<in> set (successors rootSchema x)"
            by (simp add: successors_def)
          then have st: "reaches rootSchema a (JObj kvs)" if "reaches rootSchema a x" for a
            using that by (rule reaches.step [rotated])
          from firstEntry_size [OF fe] st [OF rx] px st
          show ?thesis unfolding u by (intro inner) auto
        qed
        show ?thesis
        proof (cases "refOf x")
          case (Some r)
          note step = resolve_ref [OF tr Some, of _ rootSchema seen]
          show ?thesis
          proof (cases "startsWith r ''#''")
            case False
            with step [of 0] have "resolveSchemaNode (Suc 0) (Some x) rootSchema seen \<noteq> None" by simp
            then show ?thesis ..
          next
            case sw: True
            show ?thesis
            proof (cases "resolvePointer rootSchema r")
              case None
              with step [of 0] sw have "resolveSchemaNode (Suc 0) (Some x) rootSchema seen \<noteq> None"
                by simp
              then show ?thesis ..
            next
              case target: (Some t)
              show ?thesis
              proof (cases "\<not> truthy t \<or> pointerParts r \<in> set seen")
                case True
                with step [of 0] sw target
                have "resolveSchemaNode (Suc 0) (Some x) rootSchema seen \<noteq> None" by auto
                then show ?thesis ..
              next
                case False
                from xF Some have "pointerParts r \<in> R" unfolding R by force
                with finR False
                have less: "card (R - set (pointerParts r # seen)) < card (R - set seen)"
                  by (intro card_seen_less) simp_all
                from Some sw target False have "t \<in> set (successors rootSchema x)"
                  by (simp add: successors_def refTarget_def)
                then have st: "reaches rootSchema a t" if "reaches rootSchema a x" for a
                  using that by (rule reaches.step [rotated])
                from middle [OF less st [OF rx]] px st obtain fuel where
                  "resolveSchemaNode fuel (Some t) rootSchema (pointerParts r # seen) \<noteq> None"
                  by blast
                with step [of fuel] sw target False
                have "resolveSchemaNode (Suc fuel) (Some x) rootSchema seen \<noteq> None" by auto
                then show ?thesis ..
              qed
            qed
          qed
        next
          case None
          show ?thesis
          proof (cases "hasEntries (getProp x ''allOf'')")
            case (Inl e)
            with resolve_hasEntries_error [OF tr None, of e 0 rootSchema seen]
            have "resolveSchemaNode (Suc 0) (Some x) rootSchema seen \<noteq> None" by simp
            then show ?thesis ..
          next
            case (Inr b)
            show ?thesis
            proof (cases b)
              case True
              with Inr have all: "hasEntries (getProp x ''allOf'') = Inr True" by simp
              show ?thesis
              proof (cases "\<exists>entries. getProp x ''allOf'' = Some (JArr entries)")
                case False
                with resolve_typeError [OF tr None all, of 0 rootSchema seen]
                have "resolveSchemaNode (Suc 0) (Some x) rootSchema seen \<noteq> None" by simp
                then show ?thesis ..
              next
                case ex: True
                then obtain entries where e: "getProp x ''allOf'' = Some (JArr entries)" by blast
                with None all have ae: "allOfEntries x = entries"
                  by (simp add: allOfEntries_def)
                have each: "\<exists>fuel. resolveSchemaNode fuel (Some entry) rootSchema [] \<noteq> None"
                  if "entry \<in> set entries" for entry
                proof -
                  from that ae have en: "entry \<in> set (allOfEntries x)" by simp
                  then have su: "entry \<in> set (successors rootSchema x)"
                    by (simp add: successors_def)
                  then have st: "reaches rootSchema a entry" if "reaches rootSchema a x" for a
                    using that by (rule reaches.step [rotated])
                  have notP: "entry \<notin> P"
                  proof
                    assume "entry \<in> P"
                    with px have "reaches rootSchema entry x" by blast
                    with acyclic rx en show False
                      unfolding noAllOfCycle_def by blast
                  qed
                  have eF: "entry \<in> F"
                  proof -
                    from allOfEntries_JObj [OF en] obtain kvs es where
                      "x = JObj kvs" "map_of kvs ''allOf'' = Some (JArr es)" "entry \<in> set es"
                      by blast
                    then have "JArr es \<in> subvalues x" "entry \<in> subvalues (JArr es)"
                      by (auto dest: map_of_subvalues intro: subvalues_self)
                    then have "entry \<in> subvalues x" by (rule subvalues_trans)
                    with xF show ?thesis unfolding F by (auto dest: subvalues_trans)
                  qed
                  have eq: "F - insert entry P = (F - P) - {entry}" by auto
                  have "entry \<in> F - P" using eF notP by simp
                  moreover have "finite (F - P)" using finF by simp
                  ultimately have "card ((F - P) - {entry}) < card (F - P)"
                    by (rule card_Diff1_less [rotated])
                  then have less: "card (F - insert entry P) < card (F - P)"
                    unfolding eq .
                  have sub: "insert entry P \<subseteq> F" using eF PF by simp
                  have all: "\<forall>p \<in> insert entry P. reaches rootSchema p entry"
                    using px st by (auto intro: reaches.here)
                  from outer [OF less sub st [OF rx] all] show ?thesis .
                qed
                let ?f = "\<lambda>fuel entry. resolveSchemaNode fuel (Some entry) rootSchema []"
                have "\<exists>fuel. collect (map (?f fuel) entries) \<noteq> None"
                  by (rule collect_terminates) (use each in \<open>auto dest: resolve_fuel_mono\<close>)
                then obtain fuel where "collect (map (?f fuel) entries) \<noteq> None" ..
                with resolve_allOf [OF tr None all e, of fuel rootSchema seen]
                have "resolveSchemaNode (Suc fuel) (Some x) rootSchema seen \<noteq> None"
                  by (auto split: option.splits sum.splits)
                then show ?thesis ..
              qed
            next
              case False
              with Inr have noall: "hasEntries (getProp x ''allOf'') = Inr False" by simp
              show ?thesis
              proof (cases "hasEntries (getProp x ''oneOf'')")
                case (Inl e)
                with resolve_hasEntries_error [OF tr None, of e 0 rootSchema seen] noall
                have "resolveSchemaNode (Suc 0) (Some x) rootSchema seen \<noteq> None" by simp
                then show ?thesis ..
              next
                case (Inr c)
                show ?thesis
                proof (cases c)
                  case True
                  with Inr have one: "hasEntries (getProp x ''oneOf'') = Inr True" by simp
                  let ?u = "getProp (the (getProp x ''oneOf'')) ''0''"
                  from None noall one have "firstEntry x = ?u" by (simp add: firstEntry_def)
                  then obtain fuel where "resolveSchemaNode fuel ?u rootSchema seen \<noteq> None"
                    using next_node [of ?u] by auto
                  with resolve_oneOf [OF tr None noall one, of fuel rootSchema seen]
                  have "resolveSchemaNode (Suc fuel) (Some x) rootSchema seen \<noteq> None" by simp
                  then show ?thesis ..
                next
                  case False
                  with Inr have noone: "hasEntries (getProp x ''oneOf'') = Inr False" by simp
                  show ?thesis
                  proof (cases "hasEntries (getProp x ''anyOf'')")
                    case (Inl e)
                    with resolve_hasEntries_error [OF tr None, of e 0 rootSchema seen] noall noone
                    have "resolveSchemaNode (Suc 0) (Some x) rootSchema seen \<noteq> None" by simp
                    then show ?thesis ..
                  next
                    case (Inr d)
                    show ?thesis
                    proof (cases d)
                      case True
                      with Inr have any: "hasEntries (getProp x ''anyOf'') = Inr True" by simp
                      let ?u = "getProp (the (getProp x ''anyOf'')) ''0''"
                      from None noall noone any have "firstEntry x = ?u"
                        by (simp add: firstEntry_def)
                      then obtain fuel where "resolveSchemaNode fuel ?u rootSchema seen \<noteq> None"
                        using next_node [of ?u] by auto
                      with resolve_anyOf [OF tr None noall noone any, of fuel rootSchema seen]
                      have "resolveSchemaNode (Suc fuel) (Some x) rootSchema seen \<noteq> None" by simp
                      then show ?thesis ..
                    next
                      case False
                      with Inr have "hasEntries (getProp x ''anyOf'') = Inr False" by simp
                      from resolve_concrete [OF tr None noall noone this, of 0 rootSchema seen]
                      have "resolveSchemaNode (Suc 0) (Some x) rootSchema seen \<noteq> None" by simp
                      then show ?thesis ..
                    qed
                  qed
                qed
              qed
            qed
          qed
        qed
      qed
    qed
  qed
qed

lemma resolve_returns:
  assumes "noAllOfCycle rootSchema start"
  shows "\<exists>fuel res. \<forall>k. resolveSchemaNode (fuel + k) (Some start) rootSchema seen = Some res"
proof -
  from resolve_terminates_aux [OF assms refl refl, of "{}" start seen] obtain fuel res
    where "resolveSchemaNode fuel (Some start) rootSchema seen = Some res"
    by (auto intro: reaches.here)
  then have "\<forall>k. resolveSchemaNode (fuel + k) (Some start) rootSchema seen = Some res"
    by (simp add: resolve_fuel_mono)
  then show ?thesis by blast
qed



subsection \<open>Schemas with an allOf, without and with a cycle\<close>

lemma acyclic_example: "noAllOfCycle acyclicRoot refB"
  unfolding noAllOfCycle_def
proof (intro allI impI notI, elim conjE)
  fix s e
  assume rs: "reaches acyclicRoot refB s" and e: "e \<in> set (allOfEntries s)"
    and again: "reaches acyclicRoot e s"
  have closed: "list_all (\<lambda>t. list_all (\<lambda>u. u \<in> set [refB, mergedB, refA, requiresX, typeString])
                   (successors acyclicRoot t)) [refB, mergedB, refA, requiresX, typeString]"
    by code_simp
  from reaches_closed [OF rs _ closed]
  have s: "s \<in> set [refB, mergedB, refA, requiresX, typeString]" by simp
  have entries: "allOfEntries refB = []" "allOfEntries mergedB = [refA, requiresX]"
    "allOfEntries refA = []" "allOfEntries requiresX = []" "allOfEntries typeString = []"
    by code_simp+
  from s e entries have sm: "s = mergedB" and ee: "e = refA \<or> e = requiresX" by auto
  have closedA: "list_all (\<lambda>t. list_all (\<lambda>u. u \<in> set [refA, typeString])
                   (successors acyclicRoot t)) [refA, typeString]"
    by code_simp
  have closedX: "list_all (\<lambda>t. list_all (\<lambda>u. u \<in> set [requiresX])
                   (successors acyclicRoot t)) [requiresX]"
    by code_simp
  have notA: "mergedB \<notin> set [refA, typeString]" and notX: "mergedB \<notin> set [requiresX]"
    by (simp_all add: mergedB_def refA_def typeString_def requiresX_def)
  from ee show False
  proof
    assume "e = refA"
    with again sm have "reaches acyclicRoot refA mergedB" by simp
    from reaches_closed [OF this _ closedA] notA show False by simp
  next
    assume "e = requiresX"
    with again sm have "reaches acyclicRoot requiresX mergedB" by simp
    from reaches_closed [OF this _ closedX] notX show False by simp
  qed
qed

lemma remote_example: "noAllOfCycle emptyRoot allRemote"
  unfolding noAllOfCycle_def
proof (intro allI impI notI, elim conjE)
  fix s e
  assume rs: "reaches emptyRoot allRemote s" and e: "e \<in> set (allOfEntries s)"
    and again: "reaches emptyRoot e s"
  have closed: "list_all (\<lambda>t. list_all (\<lambda>u. u \<in> set [allRemote, remoteRef, danglingRef])
                   (successors emptyRoot t)) [allRemote, remoteRef, danglingRef]"
    by code_simp
  from reaches_closed [OF rs _ closed]
  have s: "s \<in> set [allRemote, remoteRef, danglingRef]" by simp
  have entries: "allOfEntries allRemote = [remoteRef, danglingRef]"
    "allOfEntries remoteRef = []" "allOfEntries danglingRef = []"
    by code_simp+
  from s e entries have sm: "s = allRemote" and ee: "e \<in> set [remoteRef, danglingRef]" by auto
  have closedE: "list_all (\<lambda>t. list_all (\<lambda>u. u \<in> set [remoteRef, danglingRef])
                   (successors emptyRoot t)) [remoteRef, danglingRef]"
    by code_simp
  have "allRemote \<notin> set [remoteRef, danglingRef]"
    by (simp add: allRemote_def remoteRef_def danglingRef_def)
  with reaches_closed [OF again [unfolded sm] ee closedE] show False by simp
qed

text \<open>The schema whose resolution does not return has such a cycle.\<close>

lemma loop_example: "\<not> noAllOfCycle loopRoot loopStart"
proof -
  let ?body = "JObj [(''allOf'', JArr [loopStart])]"
  have 1: "?body \<in> set (successors loopRoot loopStart)" by code_simp
  have 2: "loopStart \<in> set (allOfEntries ?body)" by code_simp
  from reaches.step [OF reaches.here 1] have 3: "reaches loopRoot loopStart ?body" .
  from 2 3 show ?thesis unfolding noAllOfCycle_def by blast
qed

text \<open>C1, as stated, fails twice. The branches of an \<^verbatim>\<open>allOf\<close> are resolved with a fresh
  visited set, so a reference that leads back to itself through an \<^verbatim>\<open>allOf\<close> is never cut:
  no amount of fuel makes the resolver return. And a chain of references without a cycle is
  followed to its end whatever its length: there is no ceiling after which the resolver
  answers absent.\<close>

theorem C1_counterexample:
  "(\<forall>fuel. resolveSchemaNode fuel (Some loopStart) loopRoot [] = None) \<and>
   (\<forall>n. resolveSchemaNode (n + 2) (Some (chainRef 0)) (chainRoot n) [] =
      Some (Inr (Some typeString)))"
  using loop_diverges resolve_chain by simp

text \<open>C1, amended: resolution returns (or throws), and more fuel never changes the outcome,
  for every root schema and every starting node from which no \<^verbatim>\<open>allOf\<close> entry leads back to
  the node that holds it; a cycle of references that does not pass through an \<^verbatim>\<open>allOf\<close> is
  cut by the visited set. A node whose \<^verbatim>\<open>$ref\<close> points to a node that refers to itself
  resolves to that target node verbatim. A chain of references to distinct targets, of any
  length, resolves to the node at its end when that node has no reference and no
  composition keyword with entries: no length makes the resolver answer absent.\<close>

theorem C1_resolution_terminates:
  "(noAllOfCycle rootSchema start \<longrightarrow>
      (\<exists>fuel res. \<forall>k. resolveSchemaNode (fuel + k) (Some start) rootSchema seen = Some res)) \<and>
   (refOf s = Some r \<and> resolvePointer rootSelf r = Some t \<and> truthy t \<and> refOf t = Some r \<longrightarrow>
      resolveSchemaNode (Suc (Suc extra)) (Some s) rootSelf seenSelf = Some (Inr (Some t))) \<and>
   (followsChain rootChain first refs final \<and> plainSchema final \<and>
    distinct (map pointerParts refs) \<longrightarrow>
      resolveSchemaNode (Suc (length refs) + spare) (Some first) rootChain [] =
        Some (Inr (Some final)))"
proof (intro conjI impI)
  assume "noAllOfCycle rootSchema start"
  then show "\<exists>fuel res. \<forall>k. resolveSchemaNode (fuel + k) (Some start) rootSchema seen = Some res"
    by (rule resolve_returns)
next
  assume a: "refOf s = Some r \<and> resolvePointer rootSelf r = Some t \<and> truthy t \<and> refOf t = Some r"
  then have "startsWith r ''#''" by (auto dest: resolvePointer_hash)
  with a show "resolveSchemaNode (Suc (Suc extra)) (Some s) rootSelf seenSelf = Some (Inr (Some t))"
    by (intro resolve_self_reference) simp_all
next
  assume "followsChain rootChain first refs final \<and> plainSchema final \<and>
    distinct (map pointerParts refs)"
  then show "resolveSchemaNode (Suc (length refs) + spare) (Some first) rootChain [] =
        Some (Inr (Some final))"
    by (intro resolve_followsChain) simp_all
qed

theorem C1_resolution_terminates_witness:
  "noAllOfCycle acyclicRoot refB \<and>
   (\<exists>fuel res. \<forall>k. resolveSchemaNode (fuel + k) (Some refB) acyclicRoot [] = Some res) \<and>
   noAllOfCycle emptyRoot allRemote \<and>
   (\<exists>fuel res. \<forall>k. resolveSchemaNode (fuel + k) (Some allRemote) emptyRoot [] = Some res) \<and>
   resolveSchemaNode 4 (Some refB) acyclicRoot [] =
     Some (Inr (Some (JObj [(''type'', JStr ''string''), (''required'', JArr [JStr ''x''])]))) \<and>
   refOf loopStart = Some ''#/definitions/x'' \<and>
   resolvePointer selfRoot ''#/definitions/x'' = Some loopStart \<and> truthy loopStart \<and>
   resolveSchemaNode (Suc (Suc 0)) (Some loopStart) selfRoot [] = Some (Inr (Some loopStart)) \<and>
   followsChain (chainRoot 3) (chainRef 0)
     [chainPointer 0, chainPointer 1, chainPointer 2, chainPointer 3] typeString \<and>
   plainSchema typeString \<and>
   distinct (map pointerParts [chainPointer 0, chainPointer 1, chainPointer 2, chainPointer 3]) \<and>
   resolveSchemaNode (Suc (length [chainPointer 0, chainPointer 1, chainPointer 2, chainPointer 3]) + 0)
     (Some (chainRef 0)) (chainRoot 3) [] = Some (Inr (Some typeString))"
proof -
  let ?refs = "[chainPointer 0, chainPointer 1, chainPointer 2, chainPointer 3]"
  note T = C1_resolution_terminates [of acyclicRoot refB "[]" loopStart "''#/definitions/x''"
      selfRoot loopStart 0 "[]" "chainRoot 3" "chainRef 0" ?refs typeString 0]
  note a = acyclic_example
  have b: "refOf loopStart = Some ''#/definitions/x''"
    "resolvePointer selfRoot ''#/definitions/x'' = Some loopStart" "truthy loopStart"
    by code_simp+
  have c: "followsChain (chainRoot 3) (chainRef 0) ?refs typeString" "plainSchema typeString"
    "distinct (map pointerParts ?refs)"
    by code_simp+
  have 1: "\<exists>fuel res. \<forall>k. resolveSchemaNode (fuel + k) (Some refB) acyclicRoot [] = Some res"
    using T a by blast
  note d = remote_example
  have 5: "\<exists>fuel res. \<forall>k. resolveSchemaNode (fuel + k) (Some allRemote) emptyRoot [] = Some res"
    using C1_resolution_terminates [of emptyRoot allRemote "[]"] d by blast
  have 2: "resolveSchemaNode (Suc (Suc 0)) (Some loopStart) selfRoot [] = Some (Inr (Some loopStart))"
    using T b by blast
  have 3: "resolveSchemaNode (Suc (length ?refs) + 0) (Some (chainRef 0)) (chainRoot 3) [] =
             Some (Inr (Some typeString))"
    using T c by blast
  have 4: "resolveSchemaNode 4 (Some refB) acyclicRoot [] =
     Some (Inr (Some (JObj [(''type'', JStr ''string''), (''required'', JArr [JStr ''x''])])))"
    by code_simp
  show ?thesis
    by (intro conjI) (rule a b c d 1 2 3 4 5)+
qed

end
